theory Spec2Isabelle
  imports Main "HOL-Library.Multiset" "HOL-Library.Signed_Division"
begin

section \<open>Warehouse robot: grid, searches, layout files and the event loop\<close>

text \<open>
  The development embeds \<^verbatim>\<open>warehouse_robot.cc\<close>. Integers of the program are
  modelled as unbounded \<^typ>\<open>int\<close>: every coordinate the program computes lies between
  \<open>-1\<close> and \<open>COLS\<close>, every cost is bounded by the number of cells (see the invariant
  of the A* loop below), so no 32-bit operation of the searches wraps.
\<close>

subsection \<open>Constants and cells\<close>

definition SCREEN_WIDTH :: int where "SCREEN_WIDTH = 800"
definition SCREEN_HEIGHT :: int where "SCREEN_HEIGHT = 600"
definition GRID_SIZE :: int where "GRID_SIZE = 40"
definition ROWS :: int where "ROWS = SCREEN_HEIGHT sdiv GRID_SIZE"
definition COLS :: int where "COLS = SCREEN_WIDTH sdiv GRID_SIZE"
definition INT_MAX :: int where "INT_MAX = 2147483647"
definition INT_MIN :: int where "INT_MIN = - 2147483648"

datatype Point = Point (px: int) (py: int)

text \<open>
  An unchecked \<^verbatim>\<open>operator[]\<close> outside a vector is undefined behaviour in C++; the
  model reports it as the error \<open>OutOfBounds\<close>.
\<close>

datatype error = OutOfBounds

text \<open>
  Every two-dimensional vector of the program has the fixed shape \<open>ROWS \<times> COLS\<close> and is
  indexed \<^verbatim>\<open>v[p.y][p.x]\<close>. It is modelled as a store from cells to values; only the
  cells inside the shape exist, and each access of the source that is not guarded by a
  bounds test is guarded by \<open>in_bounds\<close> in the model.
\<close>

type_synonym 'a array2 = "Point \<Rightarrow> 'a"

definition in_bounds :: "Point \<Rightarrow> bool" where
  "in_bounds p \<longleftrightarrow> 0 \<le> px p \<and> px p < COLS \<and> 0 \<le> py p \<and> py p < ROWS"

definition isValidGridPosition :: "int array2 \<Rightarrow> int \<Rightarrow> int \<Rightarrow> bool" where
  "isValidGridPosition warehouseGrid x y \<longleftrightarrow>
     x \<ge> 0 \<and> x < COLS \<and> y \<ge> 0 \<and> y < ROWS \<and> warehouseGrid (Point x y) = 0"

text \<open>The arrays \<^verbatim>\<open>dx\<close> and \<^verbatim>\<open>dy\<close> of both searches, zipped.\<close>

definition dirs :: "(int \<times> int) list" where
  "dirs = [(0, -1), (1, 0), (0, 1), (-1, 0)]"

subsection \<open>Path reconstruction\<close>

text \<open>
  The inner loop \<^verbatim>\<open>while (!(current == start))\<close> of both searches, followed by
  \<^verbatim>\<open>std::reverse\<close>. Nothing in the loop itself bounds the walk along the parent
  pointers, so it is a partial function: \<open>None\<close> is a walk that never ends.
\<close>

partial_function (option) reconstruct ::
  "Point array2 \<Rightarrow> Point \<Rightarrow> Point \<Rightarrow> Point list \<Rightarrow> (error + Point list) option" where
  "reconstruct parents start current path =
     (if current = start then Some (Inr (rev path))
      else if \<not> in_bounds current then Some (Inl OutOfBounds)
      else reconstruct parents start (parents current) (path @ [current]))"

declare reconstruct.simps [code]

subsection \<open>Breadth-first search: findPath\<close>

type_synonym bfs_state = "bool array2 \<times> Point array2 \<times> Point list"

text \<open>The body of the \<^verbatim>\<open>for\<close> loop over the four directions.\<close>

definition bfs_visit :: "int array2 \<Rightarrow> Point \<Rightarrow> bfs_state \<Rightarrow> int \<times> int \<Rightarrow> bfs_state" where
  "bfs_visit warehouseGrid current st d =
     (case st of (visited, parents, queue) \<Rightarrow>
        let nx = px current + fst d; ny = py current + snd d in
        if isValidGridPosition warehouseGrid nx ny \<and> \<not> visited (Point nx ny)
        then (visited(Point nx ny := True), parents(Point nx ny := current),
              queue @ [Point nx ny])
        else st)"

definition bfs_measure :: "int array2 \<times> Point \<times> Point \<times> bfs_state \<Rightarrow> nat" where
  "bfs_measure a =
     (case a of (g, s, e, visited, parents, queue) \<Rightarrow>
        2 * card {c. in_bounds c \<and> \<not> visited c} + length queue)"

lemma in_bounds_eq: "{c. in_bounds c} = (\<lambda>(a, b). Point a b) ` ({0..<COLS} \<times> {0..<ROWS})"
proof (rule set_eqI)
  fix c
  show "c \<in> {c. in_bounds c} \<longleftrightarrow> c \<in> (\<lambda>(a, b). Point a b) ` ({0..<COLS} \<times> {0..<ROWS})"
    by (cases c) (auto simp: in_bounds_def image_iff)
qed

lemma finite_in_bounds: "finite {c. in_bounds c}"
  unfolding in_bounds_eq by simp

lemma finite_unvisited: "finite {c. in_bounds c \<and> \<not> v c}"
  by (rule finite_subset[OF _ finite_in_bounds]) auto

lemma bfs_visit_measure:
  "bfs_measure (g, s, e, bfs_visit g cur st d) \<le> bfs_measure (g, s, e, st)"
proof (cases st)
  case (fields visited parents queue)
  let ?n = "Point (px cur + fst d) (py cur + snd d)"
  show ?thesis
  proof (cases "isValidGridPosition g (px cur + fst d) (py cur + snd d) \<and> \<not> visited ?n")
    case False
    then show ?thesis
      using fields by (auto simp: bfs_visit_def Let_def)
  next
    case True
    then have inb: "in_bounds ?n"
      by (simp add: isValidGridPosition_def in_bounds_def)
    have eq: "{c. in_bounds c \<and> \<not> (visited(?n := True)) c} = {c. in_bounds c \<and> \<not> visited c} - {?n}"
      by auto
    have mem: "?n \<in> {c. in_bounds c \<and> \<not> visited c}"
      using True inb by simp
    have "card ({c. in_bounds c \<and> \<not> visited c} - {?n}) < card {c. in_bounds c \<and> \<not> visited c}"
      by (rule card_Diff1_less[OF finite_unvisited mem])
    then have less: "card {c. in_bounds c \<and> \<not> (visited(?n := True)) c}
                     < card {c. in_bounds c \<and> \<not> visited c}"
      by (simp only: eq)
    have "bfs_visit g cur st d = (visited(?n := True), parents(?n := cur), queue @ [?n])"
      using fields True by (simp add: bfs_visit_def Let_def)
    then have "bfs_measure (g, s, e, bfs_visit g cur st d)
               = 2 * card {c. in_bounds c \<and> \<not> (visited(?n := True)) c} + length queue + 1"
      by (simp add: bfs_measure_def)
    moreover have "bfs_measure (g, s, e, st) = 2 * card {c. in_bounds c \<and> \<not> visited c} + length queue"
      using fields by (simp only: bfs_measure_def prod.case)
    ultimately show ?thesis
      using less by linarith
  qed
qed

lemma bfs_foldl_measure:
  "bfs_measure (g, s, e, foldl (bfs_visit g cur) st ds) \<le> bfs_measure (g, s, e, st)"
proof (induction ds arbitrary: st)
  case Nil
  then show ?case by simp
next
  case (Cons d ds)
  have "bfs_measure (g, s, e, foldl (bfs_visit g cur) (bfs_visit g cur st d) ds)
        \<le> bfs_measure (g, s, e, bfs_visit g cur st d)"
    by (rule Cons.IH)
  also have "\<dots> \<le> bfs_measure (g, s, e, st)"
    by (rule bfs_visit_measure)
  finally show ?case by simp
qed

text \<open>The outer loop \<^verbatim>\<open>while (!queue.empty())\<close>.\<close>

function bfs_loop ::
  "int array2 \<Rightarrow> Point \<Rightarrow> Point \<Rightarrow> bfs_state \<Rightarrow> (error + Point list) option" where
  "bfs_loop warehouseGrid start endp (visited, parents, queue) =
     (case queue of
        [] \<Rightarrow> Some (Inr [])
      | current # rest \<Rightarrow>
          if current = endp then reconstruct parents start current []
          else bfs_loop warehouseGrid start endp
                 (foldl (bfs_visit warehouseGrid current) (visited, parents, rest) dirs))"
  by pat_completeness auto
termination
proof (relation "measure bfs_measure")
  show "wf (measure bfs_measure)" by simp
next
  fix warehouseGrid :: "int array2" and start endp :: Point
    and visited :: "bool array2" and parents :: "Point array2"
    and queue :: "Point list" and current :: Point and rest :: "Point list"
  assume "queue = current # rest"
  then have "bfs_measure (warehouseGrid, start, endp, visited, parents, rest)
             < bfs_measure (warehouseGrid, start, endp, visited, parents, queue)"
    by (simp add: bfs_measure_def)
  with bfs_foldl_measure[of warehouseGrid start endp current "(visited, parents, rest)" dirs]
  show "((warehouseGrid, start, endp,
          foldl (bfs_visit warehouseGrid current) (visited, parents, rest) dirs),
         (warehouseGrid, start, endp, visited, parents, queue)) \<in> measure bfs_measure"
    by simp
qed

declare bfs_loop.simps [simp del]

definition findPath :: "int array2 \<Rightarrow> Point \<Rightarrow> Point \<Rightarrow> (error + Point list) option" where
  "findPath warehouseGrid start endp =
     (if \<not> in_bounds start then Some (Inl OutOfBounds)
      else bfs_loop warehouseGrid start endp
             ((\<lambda>_. False)(start := True), (\<lambda>_. Point (-1) (-1)), [start]))"

subsection \<open>The priority queue of findPathA\<close>

text \<open>
  \<^verbatim>\<open>std::priority_queue<std::pair<Point, int>, std::vector<...>, decltype(comparator)>\<close>
  keeps its entries in a vector; \<^verbatim>\<open>top()\<close> is the vector's front,
  \<^verbatim>\<open>push(x)\<close> is \<^verbatim>\<open>push_back(x)\<close> followed by \<^verbatim>\<open>std::push_heap\<close>, and
  \<^verbatim>\<open>pop()\<close> is \<^verbatim>\<open>std::pop_heap\<close> followed by \<^verbatim>\<open>pop_back()\<close>. The two heap
  algorithms are those of libstdc++ (\<^verbatim>\<open>bits/stl_heap.h\<close>), the library g++ links:
  \<^verbatim>\<open>__push_heap\<close> moves a hole up while the parent compares greater than the value,
  \<^verbatim>\<open>__adjust_heap\<close> moves the hole down to a leaf along the preferred children and then
  calls \<^verbatim>\<open>__push_heap\<close> from there.
\<close>

type_synonym entry = "Point \<times> int"

text \<open>The lambda \<^verbatim>\<open>comparator\<close> of findPathA.\<close>

definition comparator :: "entry \<Rightarrow> entry \<Rightarrow> bool" where
  "comparator a b \<longleftrightarrow> snd a > snd b"

function push_heap_aux :: "entry list \<Rightarrow> nat \<Rightarrow> nat \<Rightarrow> entry \<Rightarrow> entry list" where
  "push_heap_aux first holeIndex topIndex v =
     (let parent = (holeIndex - 1) div 2 in
      if holeIndex > topIndex \<and> comparator (first ! parent) v
      then push_heap_aux (first[holeIndex := first ! parent]) parent topIndex v
      else first[holeIndex := v])"
  by pat_completeness auto
termination
  by (relation "measure (\<lambda>(first, holeIndex, topIndex, v). holeIndex)") auto

declare push_heap_aux.simps [simp del]

definition push_heap :: "entry list \<Rightarrow> entry list" where
  "push_heap c = (if c = [] then c else push_heap_aux c (length c - 1) 0 (last c))"

text \<open>The \<^verbatim>\<open>while\<close> loop of \<^verbatim>\<open>__adjust_heap\<close>.\<close>

function adjust_down :: "entry list \<Rightarrow> nat \<Rightarrow> nat \<Rightarrow> nat \<Rightarrow> entry list \<times> nat \<times> nat" where
  "adjust_down first holeIndex secondChild len =
     (if secondChild < (len - 1) div 2 then
        let sc = 2 * (secondChild + 1);
            sc' = (if comparator (first ! sc) (first ! (sc - 1)) then sc - 1 else sc)
        in adjust_down (first[holeIndex := first ! sc']) sc' sc' len
      else (first, holeIndex, secondChild))"
  by pat_completeness auto
termination
  by (relation "measure (\<lambda>(first, holeIndex, secondChild, len). len - secondChild)") auto

declare adjust_down.simps [simp del]

definition adjust_heap :: "entry list \<Rightarrow> nat \<Rightarrow> nat \<Rightarrow> entry \<Rightarrow> entry list" where
  "adjust_heap first holeIndex len v =
     (case adjust_down first holeIndex holeIndex len of
        (first1, hole1, sc1) \<Rightarrow>
          if len mod 2 = 0 \<and> 2 \<le> len \<and> sc1 = (len - 2) div 2
          then push_heap_aux (first1[hole1 := first1 ! (2 * (sc1 + 1) - 1)])
                 (2 * (sc1 + 1) - 1) holeIndex v
          else push_heap_aux first1 hole1 holeIndex v)"

definition pop_heap :: "entry list \<Rightarrow> entry list" where
  "pop_heap c =
     (if length c > 1
      then adjust_heap (c[length c - 1 := c ! 0]) 0 (length c - 1) (c ! (length c - 1))
      else c)"

definition pq_push :: "entry \<Rightarrow> entry list \<Rightarrow> entry list" where
  "pq_push x c = push_heap (c @ [x])"

definition pq_pop :: "entry list \<Rightarrow> entry list" where
  "pq_pop c = butlast (pop_heap c)"

subsection \<open>A* search: findPathA\<close>

type_synonym astar_state = "bool array2 \<times> Point array2 \<times> int array2 \<times> entry list"

text \<open>
  The body of the \<^verbatim>\<open>for\<close> loop of findPathA. The open list is a parameter of the
  loop (its \<open>push\<close> and \<open>pop\<close>; \<^verbatim>\<open>top()\<close> is the head of the list), so that the same
  loop can be run with a first-in first-out open set for comparison.
\<close>

definition astar_visit ::
  "(entry \<Rightarrow> entry list \<Rightarrow> entry list) \<Rightarrow> int array2 \<Rightarrow> Point \<Rightarrow> Point \<Rightarrow>
   astar_state \<Rightarrow> int \<times> int \<Rightarrow> astar_state" where
  "astar_visit push warehouseGrid endp current st d =
     (case st of (visited, parents, gCost, openList) \<Rightarrow>
        let nx = px current + fst d; ny = py current + snd d in
        if isValidGridPosition warehouseGrid nx ny \<and> \<not> visited (Point nx ny)
        then
          let newGCost = gCost current + 1;
              hCost = \<bar>nx - px endp\<bar> + \<bar>ny - py endp\<bar>;
              fCost = newGCost + hCost
          in if newGCost < gCost (Point nx ny)
             then (visited, parents(Point nx ny := current),
                   gCost(Point nx ny := newGCost), push (Point nx ny, fCost) openList)
             else st
        else st)"

partial_function (option) astar_loop ::
  "(entry \<Rightarrow> entry list \<Rightarrow> entry list) \<Rightarrow> (entry list \<Rightarrow> entry list) \<Rightarrow>
   int array2 \<Rightarrow> Point \<Rightarrow> Point \<Rightarrow> astar_state \<Rightarrow> (error + Point list) option" where
  "astar_loop push pop warehouseGrid start endp st =
     (case st of (visited, parents, gCost, openList) \<Rightarrow>
        if openList = [] then Some (Inr [])
        else if fst (hd openList) = endp
          then reconstruct parents start (fst (hd openList)) []
        else if \<not> in_bounds (fst (hd openList)) then Some (Inl OutOfBounds)
        else astar_loop push pop warehouseGrid start endp
               (foldl (astar_visit push warehouseGrid endp (fst (hd openList)))
                  (visited(fst (hd openList) := True), parents, gCost, pop openList) dirs))"

declare astar_loop.simps [code]

definition findPathA_with ::
  "(entry \<Rightarrow> entry list \<Rightarrow> entry list) \<Rightarrow> (entry list \<Rightarrow> entry list) \<Rightarrow>
   int array2 \<Rightarrow> Point \<Rightarrow> Point \<Rightarrow> (error + Point list) option" where
  "findPathA_with push pop warehouseGrid start endp =
     (if \<not> in_bounds start then Some (Inl OutOfBounds)
      else astar_loop push pop warehouseGrid start endp
             (\<lambda>_. False, \<lambda>_. Point (-1) (-1), (\<lambda>_. INT_MAX)(start := 0),
              push (start, 0) []))"

definition findPathA :: "int array2 \<Rightarrow> Point \<Rightarrow> Point \<Rightarrow> (error + Point list) option" where
  "findPathA = findPathA_with pq_push pq_pop"

text \<open>
  The reference open set of the specification: among entries of equal f-cost the oldest
  is popped first. The list is kept sorted by f-cost, a new entry goes behind every entry
  whose f-cost is not greater.
\<close>

fun fifo_push :: "entry \<Rightarrow> entry list \<Rightarrow> entry list" where
  "fifo_push x [] = [x]"
| "fifo_push x (y # ys) = (if snd x < snd y then x # y # ys else y # fifo_push x ys)"

definition fifo_pop :: "entry list \<Rightarrow> entry list" where
  "fifo_pop c = tl c"

definition findPathA_fifo :: "int array2 \<Rightarrow> Point \<Rightarrow> Point \<Rightarrow> (error + Point list) option" where
  "findPathA_fifo = findPathA_with fifo_push fifo_pop"

subsection \<open>Layout files: saveLayout and loadLayout\<close>

text \<open>
  The file \<^verbatim>\<open>warehouse_layout.txt\<close> is a value of type \<^typ>\<open>string option\<close>:
  \<open>None\<close> is a file that cannot be opened for reading. \<^verbatim>\<open>ofs << cell\<close> writes the
  decimal digits of an \<^verbatim>\<open>int\<close>.
\<close>

definition digit_char :: "nat \<Rightarrow> char" where
  "digit_char d = ''0123456789'' ! d"

fun show_nat :: "nat \<Rightarrow> string" where
  "show_nat n = (if n < 10 then [digit_char n] else show_nat (n div 10) @ [digit_char (n mod 10)])"

declare show_nat.simps [simp del]

definition show_int :: "int \<Rightarrow> string" where
  "show_int i = (if i < 0 then CHR ''-'' # show_nat (nat (- i)) else show_nat (nat i))"

text \<open>The text saveLayout writes: each cell followed by a blank, each row by a newline.\<close>

definition row_text :: "int array2 \<Rightarrow> int \<Rightarrow> string" where
  "row_text warehouseGrid i =
     concat (map (\<lambda>j. show_int (warehouseGrid (Point j i)) @ '' '') [0..COLS - 1]) @ [CHR 0x0A]"

definition layout_text :: "int array2 \<Rightarrow> string" where
  "layout_text warehouseGrid = concat (map (row_text warehouseGrid) [0..ROWS - 1])"

datatype save_outcome = SaveError | Saved

text \<open>
  \<open>writable\<close> is whether the \<^verbatim>\<open>std::ofstream\<close> opens; the result is the message
  printed and the file afterwards.
\<close>

definition saveLayout :: "bool \<Rightarrow> int array2 \<Rightarrow> string option \<Rightarrow> save_outcome \<times> string option" where
  "saveLayout writable warehouseGrid file =
     (if \<not> writable then (SaveError, file) else (Saved, Some (layout_text warehouseGrid)))"

text \<open>
  The input stream: the characters not yet read and the fail bit. \<^verbatim>\<open>ifs >> v\<close> on an
  \<^verbatim>\<open>int\<close> (C++11 and later) does nothing once the stream has failed; otherwise it skips
  white space, fails without touching \<open>v\<close> at the end of the file, stores \<open>0\<close> and fails
  when no digit follows the optional sign, and stores the clamped value and fails when
  the number does not fit an \<^verbatim>\<open>int\<close>.
\<close>

record istream =
  buf :: string
  failbit :: bool

definition isspace :: "char \<Rightarrow> bool" where
  "isspace c \<longleftrightarrow> c \<in> set [CHR '' '', CHR 0x09, CHR 0x0A, CHR 0x0B, CHR 0x0C, CHR 0x0D]"

definition isdigit :: "char \<Rightarrow> bool" where
  "isdigit c \<longleftrightarrow> c \<in> set ''0123456789''"

definition digit_val :: "char \<Rightarrow> nat" where
  "digit_val c =
     (case map_of [(CHR ''0'', 0), (CHR ''1'', 1), (CHR ''2'', 2), (CHR ''3'', 3),
                   (CHR ''4'', 4), (CHR ''5'', 5), (CHR ''6'', 6), (CHR ''7'', 7),
                   (CHR ''8'', 8), (CHR ''9'', 9)] c of
        Some d \<Rightarrow> d | None \<Rightarrow> 0)"

definition digits_val :: "string \<Rightarrow> nat" where
  "digits_val ds = foldl (\<lambda>acc c. 10 * acc + digit_val c) 0 ds"

definition extract_int :: "istream \<Rightarrow> int \<Rightarrow> istream \<times> int" where
  "extract_int ifs v =
     (if failbit ifs then (ifs, v)
      else
        let cs = dropWhile isspace (buf ifs) in
        if cs = [] then (\<lparr>buf = [], failbit = True\<rparr>, v)
        else
          let neg = (hd cs = CHR ''-'');
              ds = (if hd cs = CHR ''-'' \<or> hd cs = CHR ''+'' then tl cs else cs);
              num = takeWhile isdigit ds;
              rest = dropWhile isdigit ds;
              n = (if neg then - int (digits_val num) else int (digits_val num))
          in if num = [] then (\<lparr>buf = rest, failbit = True\<rparr>, 0)
             else if n > INT_MAX then (\<lparr>buf = rest, failbit = True\<rparr>, INT_MAX)
             else if n < INT_MIN then (\<lparr>buf = rest, failbit = True\<rparr>, INT_MIN)
             else (\<lparr>buf = rest, failbit = False\<rparr>, n))"

text \<open>The cells in the order of the two nested loops of loadLayout.\<close>

definition all_cells :: "Point list" where
  "all_cells = concat (map (\<lambda>i. map (\<lambda>j. Point j i) [0..COLS - 1]) [0..ROWS - 1])"

definition load_cell :: "istream \<times> int array2 \<Rightarrow> Point \<Rightarrow> istream \<times> int array2" where
  "load_cell st c =
     (case st of (ifs, warehouseGrid) \<Rightarrow>
        case extract_int ifs (warehouseGrid c) of
          (ifs', v) \<Rightarrow> (ifs', warehouseGrid(c := v)))"

datatype load_outcome = LoadError | Loaded

text \<open>
  The result is the message printed (\<open>LoadError\<close> for "Error loading layout from
  file!", \<open>Loaded\<close> for "Layout loaded from ...") and the grid afterwards.
\<close>

definition loadLayout :: "string option \<Rightarrow> int array2 \<Rightarrow> load_outcome \<times> int array2" where
  "loadLayout file warehouseGrid =
     (case file of
        None \<Rightarrow> (LoadError, warehouseGrid)
      | Some text \<Rightarrow>
          (Loaded, snd (foldl load_cell (\<lparr>buf = text, failbit = False\<rparr>, warehouseGrid) all_cells)))"

text \<open>
  A file of integers, each written in decimal and followed by its separator.
\<close>

definition tokens_text :: "(int \<times> string) list \<Rightarrow> string" where
  "tokens_text toks = concat (map (\<lambda>(v, w). show_int v @ w) toks)"

text \<open>
  The integers fit an \<^verbatim>\<open>int\<close>, the separators are white space, and only the last
  separator may be empty.
\<close>

definition int_file :: "(int \<times> string) list \<Rightarrow> bool" where
  "int_file toks \<longleftrightarrow>
     (\<forall>(v, w)\<in>set toks. INT_MIN \<le> v \<and> v \<le> INT_MAX \<and> (\<forall>c\<in>set w. isspace c))
     \<and> (\<forall>(v, w)\<in>set (butlast toks). w \<noteq> [])"

subsection \<open>The event loop of main\<close>

text \<open>
  The state of the loop: the globals and the locals \<^verbatim>\<open>path\<close> and
  \<^verbatim>\<open>currentPathIndex\<close>. The robot's continuous position (two doubles) is not part of
  the state; whether \<^verbatim>\<open>moveToward\<close> reaches its target in a frame is an input of the
  frame.
\<close>

record sim_state =
  warehouseGrid :: "int array2"
  robot_gridPos :: Point
  destination :: Point
  hasDestination :: bool
  useAStar :: bool
  path :: "Point list"
  currentPathIndex :: nat

definition init_state :: sim_state where
  "init_state = \<lparr>warehouseGrid = (\<lambda>_. 0), robot_gridPos = Point 0 0, destination = Point 0 0,
                 hasDestination = False, useAStar = False, path = [], currentPathIndex = 0\<rparr>"

text \<open>
  The events main reacts to: mouse buttons with the pixel of the click, the keys, and
  for \<^verbatim>\<open>L\<close> the layout file as it is on disk. \<^verbatim>\<open>S\<close> writes the file and changes
  nothing in the state.
\<close>

datatype event =
  LeftClick int int
| RightClick int int
| KeyR
| KeyT
| KeyS
| KeyL "string option"

text \<open>The block repeated after four of the events: search with the selected algorithm.\<close>

definition replan :: "sim_state \<Rightarrow> (error + sim_state) option" where
  "replan s =
     (case (if useAStar s
            then findPathA (warehouseGrid s) (robot_gridPos s) (destination s)
            else findPath (warehouseGrid s) (robot_gridPos s) (destination s)) of
        None \<Rightarrow> None
      | Some (Inl e) \<Rightarrow> Some (Inl e)
      | Some (Inr p) \<Rightarrow> Some (Inr (s\<lparr>path := p, currentPathIndex := 0\<rparr>)))"

definition replan_if_destination :: "sim_state \<Rightarrow> (error + sim_state) option" where
  "replan_if_destination s = (if hasDestination s then replan s else Some (Inr s))"

fun handle_event :: "event \<Rightarrow> sim_state \<Rightarrow> (error + sim_state) option" where
  "handle_event (LeftClick x y) s =
     (let gridX = x sdiv GRID_SIZE; gridY = y sdiv GRID_SIZE in
      if isValidGridPosition (warehouseGrid s) gridX gridY
      then replan (s\<lparr>destination := Point gridX gridY, hasDestination := True\<rparr>)
      else Some (Inr s))"
| "handle_event (RightClick x y) s =
     (let gridX = x sdiv GRID_SIZE; gridY = y sdiv GRID_SIZE in
      if \<not> in_bounds (Point gridX gridY) then Some (Inl OutOfBounds)
      else replan_if_destination
             (s\<lparr>warehouseGrid := (warehouseGrid s)
                   (Point gridX gridY := 1 - warehouseGrid s (Point gridX gridY))\<rparr>))"
| "handle_event KeyR s = Some (Inr (s\<lparr>hasDestination := False, path := []\<rparr>))"
| "handle_event KeyT s = replan_if_destination (s\<lparr>useAStar := \<not> useAStar s\<rparr>)"
| "handle_event KeyS s = Some (Inr s)"
| "handle_event (KeyL file) s =
     replan_if_destination (s\<lparr>warehouseGrid := snd (loadLayout file (warehouseGrid s))\<rparr>)"

text \<open>
  The movement block at the end of a frame. \<open>arrived\<close> is the outcome of the test
  \<^verbatim>\<open>dist > speed\<close> in \<^verbatim>\<open>moveToward\<close>: when the robot arrives its grid position
  becomes the target.
\<close>

definition move_robot :: "bool \<Rightarrow> sim_state \<Rightarrow> sim_state" where
  "move_robot arrived s =
     (if hasDestination s \<and> currentPathIndex s < length (path s)
      then
        let target = path s ! currentPathIndex s;
            s' = (if arrived then s\<lparr>robot_gridPos := target\<rparr> else s)
        in if robot_gridPos s' = target
           then s'\<lparr>currentPathIndex := currentPathIndex s' + 1\<rparr>
           else s'
      else s)"

datatype input = Event event | Frame bool

fun sim_step :: "input \<Rightarrow> sim_state \<Rightarrow> (error + sim_state) option" where
  "sim_step (Event e) s = handle_event e s"
| "sim_step (Frame arrived) s = Some (Inr (move_robot arrived s))"

fun run :: "input list \<Rightarrow> sim_state \<Rightarrow> (error + sim_state) option" where
  "run [] s = Some (Inr s)"
| "run (i # is) s =
     (case sim_step i s of
        None \<Rightarrow> None
      | Some (Inl e) \<Rightarrow> Some (Inl e)
      | Some (Inr s') \<Rightarrow> run is s')"

text \<open>The states the loop can be in: those a run from the initial state ends in.\<close>

inductive reachable :: "sim_state \<Rightarrow> bool" where
  reachable_init: "reachable init_state"
| reachable_step: "reachable s \<Longrightarrow> sim_step i s = Some (Inr s') \<Longrightarrow> reachable s'"

subsection \<open>Routes, shortest paths and the invariants of the searches\<close>

text \<open>
  The cell one step from \<open>p\<close> in direction \<open>d\<close>, as both searches compute it.
\<close>

definition target :: "Point \<Rightarrow> int \<times> int \<Rightarrow> Point" where
  "target p d = Point (px p + fst d) (py p + snd d)"

text \<open>
  Two cells are one 4-connected step apart.
\<close>

definition adjacent :: "Point \<Rightarrow> Point \<Rightarrow> bool" where
  "adjacent p q \<longleftrightarrow> \<bar>px q - px p\<bar> + \<bar>py q - py p\<bar> = 1"

text \<open>
  A cell a search may enter: in bounds and Free, the test of isValidGridPosition.
\<close>

definition traversable :: "int array2 \<Rightarrow> Point \<Rightarrow> bool" where
  "traversable g p \<longleftrightarrow> in_bounds p \<and> g p = 0"

text \<open>
  A 4-connected route of Free cells from \<open>s\<close>: the cells after \<open>s\<close>, in order.
\<close>

fun route_from :: "int array2 \<Rightarrow> Point \<Rightarrow> Point list \<Rightarrow> bool" where
  "route_from g s [] = True"
| "route_from g s (p # ps) = (adjacent s p \<and> traversable g p \<and> route_from g p ps)"

text \<open>
  A route from \<open>s\<close> that ends at \<open>e\<close>; the empty route leads from a cell to itself.
\<close>

definition is_route :: "int array2 \<Rightarrow> Point \<Rightarrow> Point \<Rightarrow> Point list \<Rightarrow> bool" where
  "is_route g s e r \<longleftrightarrow> route_from g s r \<and> last (s # r) = e"

text \<open>
  The parent pointers of the cells in \<open>T\<close> form a tree rooted at the start, with depths \<open>d\<close>.
\<close>

definition parent_tree ::
  "int array2 \<Rightarrow> Point \<Rightarrow> Point array2 \<Rightarrow> (Point \<Rightarrow> bool) \<Rightarrow> (Point \<Rightarrow> nat) \<Rightarrow> bool" where
  "parent_tree g s par T d \<longleftrightarrow>
     T s \<and> d s = 0 \<and>
     (\<forall>p. T p \<and> p \<noteq> s \<longrightarrow>
        traversable g p \<and> T (par p) \<and> adjacent (par p) p \<and> d p = d (par p) + 1)"

text \<open>
  The loop invariant of findPath: the visited cells form a tree of shortest routes, the
  queue is sorted by depth over at most two levels, and every visited cell not in the
  queue has all its traversable neighbours visited.
\<close>

definition bfs_inv ::
  "int array2 \<Rightarrow> Point \<Rightarrow> Point \<Rightarrow> (Point \<Rightarrow> nat) \<Rightarrow> Point set \<Rightarrow>
   bool array2 \<Rightarrow> Point array2 \<Rightarrow> Point list \<Rightarrow> bool" where
  "bfs_inv g s e d N v par q \<longleftrightarrow>
     in_bounds s \<and> parent_tree g s par v d \<and>
     (\<forall>p\<in>set q. v p) \<and>
     sorted (map d q) \<and> (\<forall>p\<in>set q. d p \<le> d (hd q) + 1) \<and>
     (\<forall>p r. v p \<and> is_route g s p r \<longrightarrow> d p \<le> length r) \<and>
     (\<forall>p n. v p \<and> adjacent p n \<and> traversable g n \<and> (p \<notin> set q \<or> p = hd q \<and> n \<in> N) \<longrightarrow> v n) \<and>
     (\<forall>n r. \<not> v n \<and> is_route g s n r \<and> q \<noteq> [] \<longrightarrow> d (hd q) + 1 \<le> length r) \<and>
     (\<forall>p. v p \<and> p \<notin> set q \<longrightarrow> p \<noteq> e)"

text \<open>
  What a search owes its caller: a shortest route that avoids the start when a route
  exists, the empty path otherwise.
\<close>

definition search_post :: "int array2 \<Rightarrow> Point \<Rightarrow> Point \<Rightarrow> Point list \<Rightarrow> bool" where
  "search_post g s e p \<longleftrightarrow>
     ((\<exists>r. is_route g s e r) \<longrightarrow> is_route g s e p \<and> s \<notin> set p \<and> (\<forall>r. is_route g s e r \<longrightarrow> length p \<le> length r))
     \<and> ((\<nexists>r. is_route g s e r) \<longrightarrow> p = [])"

text \<open>
  The contract of an open set with invariant \<open>I\<close>: push adds one entry, pop removes the
  first entry, and the first entry has the least cost.
\<close>

definition pq_ok ::
  "(entry list \<Rightarrow> bool) \<Rightarrow> (entry \<Rightarrow> entry list \<Rightarrow> entry list) \<Rightarrow> (entry list \<Rightarrow> entry list) \<Rightarrow> bool" where
  "pq_ok I push pop \<longleftrightarrow>
     I [] \<and>
     (\<forall>x c. I c \<longrightarrow> I (push x c) \<and> mset (push x c) = add_mset x (mset c)) \<and>
     (\<forall>c. I c \<and> c \<noteq> [] \<longrightarrow>
        I (pop c) \<and> add_mset (hd c) (mset (pop c)) = mset c \<and> (\<forall>y\<in>set c. snd (hd c) \<le> snd y))"

text \<open>
  The Manhattan heuristic of findPathA.
\<close>

definition hcost :: "Point \<Rightarrow> Point \<Rightarrow> int" where
  "hcost e p = \<bar>px p - px e\<bar> + \<bar>py p - py e\<bar>"

text \<open>
  The loop invariant of findPathA: the cells with a finite cost form a tree whose depths
  are the costs, every open entry carries a cost not below the cell's own, and expanded
  cells have their final cost.
\<close>

definition astar_inv ::
  "(entry list \<Rightarrow> bool) \<Rightarrow> int array2 \<Rightarrow> Point \<Rightarrow> Point \<Rightarrow> Point \<Rightarrow> Point set \<Rightarrow>
   bool array2 \<Rightarrow> Point array2 \<Rightarrow> int array2 \<Rightarrow> entry list \<Rightarrow> bool" where
  "astar_inv I g s e cur N V par gc ol \<longleftrightarrow>
     (in_bounds s \<and> V s \<and> gc s = 0 \<and> e \<noteq> s \<and> \<not> V e) \<and>
     (\<forall>p. gc p < INT_MAX \<and> p \<noteq> s \<longrightarrow>
        traversable g p \<and> V (par p) \<and> adjacent (par p) p \<and> gc p = gc (par p) + 1) \<and>
     (\<forall>p. V p \<longrightarrow> in_bounds p \<and> 0 \<le> gc p \<and> gc p + 1 \<le> int (card {q. V q})) \<and>
     (\<forall>p r. V p \<and> is_route g s p r \<longrightarrow> gc p \<le> int (length r)) \<and>
     (\<forall>p. gc p < INT_MAX \<and> \<not> V p \<longrightarrow> (p, gc p + hcost e p) \<in> set ol) \<and>
     (\<forall>x\<in>set ol. gc (fst x) < INT_MAX \<and> gc (fst x) + hcost e (fst x) \<le> snd x) \<and>
     (\<forall>p n. V p \<and> adjacent p n \<and> traversable g n \<and> \<not> V n \<and> (p \<noteq> cur \<or> n \<in> N)
        \<longrightarrow> gc n \<le> gc p + 1) \<and>
     I ol"

text \<open>
  The heap order of \<^verbatim>\<open>std::priority_queue\<close> with the comparator of findPathA: a parent's
  cost is at most its child's.
\<close>

definition is_heap :: "entry list \<Rightarrow> bool" where
  "is_heap c \<longleftrightarrow> (\<forall>i<length c. 0 < i \<longrightarrow> snd (c ! ((i - 1) div 2)) \<le> snd (c ! i))"

text \<open>
  A heap but for the entry at position \<open>h\<close>, which is being moved.
\<close>

definition hole_heap :: "entry list \<Rightarrow> nat \<Rightarrow> bool" where
  "hole_heap a h \<longleftrightarrow>
     (\<forall>i<length a. 0 < i \<and> i \<noteq> h \<and> (i - 1) div 2 \<noteq> h \<longrightarrow> snd (a ! ((i - 1) div 2)) \<le> snd (a ! i)) \<and>
     (\<forall>i<length a. 0 < i \<and> (i - 1) div 2 = h \<and> 0 < h \<longrightarrow> snd (a ! ((h - 1) div 2)) \<le> snd (a ! i))"

text \<open>
  Two grids that agree on every cell other than \<open>s\<close>.
\<close>

definition agree_off :: "Point \<Rightarrow> int array2 \<Rightarrow> int array2 \<Rightarrow> bool" where
  "agree_off s g' g \<longleftrightarrow> (\<forall>p. p \<noteq> s \<longrightarrow> g' p = g p)"

text \<open>
  The grid main starts with: every cell Free.
\<close>

definition empty_grid :: "int array2" where
  "empty_grid = (\<lambda>_. 0)"

text \<open>
  A grid whose corner cell \<open>(0, 0)\<close> is cut off by two obstacles.
\<close>

definition corner_grid :: "int array2" where
  "corner_grid = (\<lambda>_. 0)(Point 1 0 := 1, Point 0 1 := 1)"

subsection \<open>Sample grids and files\<close>

text \<open>
  Two states of a short session on the empty grid: after a left click on cell \<open>(2, 0)\<close>,
  and after the robot has then reached the first cell of its path and \<^verbatim>\<open>R\<close> was pressed.
\<close>

definition demo_following :: sim_state where
  "demo_following =
     \<lparr>warehouseGrid = (\<lambda>_. 0), robot_gridPos = Point 0 0, destination = Point 2 0,
      hasDestination = True, useAStar = False, path = [Point 1 0, Point 2 0],
      currentPathIndex = 0\<rparr>"

definition demo_after_reset :: sim_state where
  "demo_after_reset =
     \<lparr>warehouseGrid = (\<lambda>_. 0), robot_gridPos = Point 1 0, destination = Point 2 0,
      hasDestination = False, useAStar = False, path = [], currentPathIndex = 1\<rparr>"

text \<open>The cells of row \<open>i\<close> in the order the inner loop of saveLayout visits them.\<close>

definition row_cells :: "int \<Rightarrow> Point list" where
  "row_cells i = map (\<lambda>j. Point j i) [0..COLS - 1]"

text \<open>The empty grid with one obstacle, at cell \<open>(1, 0)\<close>.\<close>

definition one_obstacle_grid :: "int array2" where
  "one_obstacle_grid = (\<lambda>_. 0)(Point 1 0 := 1)"

section \<open>Properties\<close>

subsection \<open>Constants\<close>

lemmas consts_defs =
  ROWS_def COLS_def SCREEN_WIDTH_def SCREEN_HEIGHT_def GRID_SIZE_def signed_divide_int_def

lemma COLS_eq: "COLS = 20"
  by (simp add: consts_defs)

lemma ROWS_eq: "ROWS = 15"
  by (simp add: consts_defs)

subsection \<open>The event loop\<close>

lemma run_reachable: "reachable s \<Longrightarrow> run is s = Some (Inr s') \<Longrightarrow> reachable s'"
proof (induction "is" arbitrary: s)
  case Nil
  then show ?case by simp
next
  case (Cons i "is")
  from Cons.prems(2) obtain s1
    where s1: "sim_step i s = Some (Inr s1)" and r: "run is s1 = Some (Inr s')"
    by (auto split: option.splits sum.splits)
  from Cons.prems(1) s1 have "reachable s1" by (rule reachable_step)
  then show ?case using r by (rule Cons.IH)
qed

lemma findPath_demo:
  "findPath (\<lambda>_. 0) (Point 0 0) (Point 2 0) = Some (Inr [Point 1 0, Point 2 0])"
  by code_simp

lemma click_demo: "sim_step (Event (LeftClick 80 0)) init_state = Some (Inr demo_following)"
  by (simp add: init_state_def demo_following_def replan_def findPath_demo
      isValidGridPosition_def consts_defs)

lemma frames_demo:
  "run (replicate 19 (Frame False) @ [Frame True, Event KeyR]) demo_following
   = Some (Inr demo_after_reset)"
  by (simp add: demo_following_def demo_after_reset_def move_robot_def numeral_eq_Suc)

lemma reachable_demo_following: "reachable demo_following"
  using reachable_init click_demo by (rule reachable_step)

lemma step_index_bounded:
  assumes "sim_step i s = Some (Inr s')"
    and "hasDestination s \<longrightarrow> currentPathIndex s \<le> length (path s)"
  shows "hasDestination s' \<longrightarrow> currentPathIndex s' \<le> length (path s')"
proof (cases i)
  case (Event e)
  with assms show ?thesis
    by (cases e)
      (auto simp: replan_def replan_if_destination_def Let_def
        split: option.splits sum.splits if_splits)
next
  case (Frame arrived)
  with assms show ?thesis
    by (auto simp: move_robot_def Let_def split: if_splits)
qed

text \<open>
  C3, as stated, fails: \<^verbatim>\<open>R\<close> clears the path and leaves \<^verbatim>\<open>currentPathIndex\<close> as it
  is. After a left click on cell \<open>(2, 0)\<close>, twenty frames in the last of which the robot
  arrives at \<open>(1, 0)\<close>, and \<^verbatim>\<open>R\<close>, the loop is in a state whose index is 1 and whose
  path is empty.
\<close>

theorem reset_keeps_progress_index:
  "run (Event (LeftClick 80 0) # replicate 19 (Frame False) @ [Frame True, Event KeyR])
     init_state = Some (Inr demo_after_reset)
   \<and> reachable demo_after_reset
   \<and> currentPathIndex demo_after_reset = 1
   \<and> length (path demo_after_reset) = 0"
proof -
  have r: "run (Event (LeftClick 80 0) # replicate 19 (Frame False) @ [Frame True, Event KeyR])
             init_state = Some (Inr demo_after_reset)"
    using click_demo frames_demo by simp
  then have "reachable demo_after_reset"
    by (rule run_reachable[OF reachable_init])
  with r show ?thesis
    by (simp add: demo_after_reset_def)
qed

text \<open>
  C3, amended: in every reachable state in which a destination is set,
  \<^verbatim>\<open>currentPathIndex\<close> is at most \<^verbatim>\<open>path.size()\<close>; the reset event clears the
  destination flag and the path and leaves the index as it is; and a frame's movement
  block either leaves the index or, when it is strictly below \<^verbatim>\<open>path.size()\<close>,
  increments it by one.
\<close>

theorem progress_index_bounded_with_destination:
  assumes "reachable s"
  shows "(hasDestination s \<longrightarrow> currentPathIndex s \<le> length (path s))
       \<and> handle_event KeyR s = Some (Inr (s\<lparr>hasDestination := False, path := []\<rparr>))
       \<and> (currentPathIndex (move_robot arrived s) = currentPathIndex s
          \<or> currentPathIndex s < length (path s)
            \<and> currentPathIndex (move_robot arrived s) = currentPathIndex s + 1)"
proof -
  from assms have "hasDestination s \<longrightarrow> currentPathIndex s \<le> length (path s)"
  proof (induction rule: reachable.induct)
    case reachable_init
    show ?case by (simp add: init_state_def)
  next
    case (reachable_step s i s')
    from reachable_step.hyps(2) reachable_step.IH show ?case
      by (rule step_index_bounded)
  qed
  moreover have "currentPathIndex (move_robot arrived s) = currentPathIndex s
          \<or> currentPathIndex s < length (path s)
            \<and> currentPathIndex (move_robot arrived s) = currentPathIndex s + 1"
    by (simp add: move_robot_def Let_def)
  ultimately show ?thesis by simp
qed

theorem progress_index_bounded_with_destination_witness:
  "reachable demo_following \<and> hasDestination demo_following
   \<and> currentPathIndex demo_following \<le> length (path demo_following)
   \<and> currentPathIndex (move_robot True demo_following) = 1"
  using progress_index_bounded_with_destination[OF reachable_demo_following, of True]
    reachable_demo_following
  by (simp add: demo_following_def move_robot_def)

text \<open>
  C5: the right-click branch indexes \<^verbatim>\<open>warehouseGrid[gridY][gridX]\<close> without the bounds
  test the left-click branch makes. A right click at pixel \<open>(800, 0)\<close> is cell
  \<open>(20, 0)\<close>, one column past the grid: the access is out of bounds.
\<close>

theorem right_click_outside_grid_unchecked:
  "handle_event (RightClick 800 0) init_state = Some (Inl OutOfBounds)"
  by (simp add: in_bounds_def consts_defs)

text \<open>
  C9: a left click on a cell that isValidGridPosition rejects (an obstacle, or a
  coordinate outside the grid) returns the state as it was: destination, flag, path and
  progress index are unchanged, and the handler returns without calling a search.
\<close>

theorem left_click_not_traversable_unchanged:
  assumes "\<not> isValidGridPosition (warehouseGrid s) (x sdiv GRID_SIZE) (y sdiv GRID_SIZE)"
  shows "handle_event (LeftClick x y) s = Some (Inr s)"
  using assms by (simp add: Let_def)

theorem left_click_not_traversable_unchanged_witness:
  "handle_event (LeftClick 800 0) demo_following = Some (Inr demo_following)
   \<and> handle_event (LeftClick 40 0)
        (demo_following\<lparr>warehouseGrid := (\<lambda>_. 0)(Point 1 0 := 1)\<rparr>)
      = Some (Inr (demo_following\<lparr>warehouseGrid := (\<lambda>_. 0)(Point 1 0 := 1)\<rparr>))"
  using left_click_not_traversable_unchanged[of demo_following 800 0]
    left_click_not_traversable_unchanged
      [of "demo_following\<lparr>warehouseGrid := (\<lambda>_. 0)(Point 1 0 := 1)\<rparr>" 40 0]
  by (simp add: isValidGridPosition_def consts_defs demo_following_def)

subsection \<open>Layout files\<close>

lemma load_cell_failed: "failbit ifs \<Longrightarrow> foldl load_cell (ifs, g) cs = (ifs, g)"
  by (induction cs) (simp_all add: load_cell_def extract_int_def)

lemma all_cells_split: "all_cells = Point 0 0 # tl all_cells"
  by (simp add: all_cells_def consts_defs upto_rec1[of 0])

lemma digits_val_snoc: "digits_val (xs @ [c]) = 10 * digits_val xs + digit_val c"
  by (simp add: digits_val_def)

lemma digit_char_props:
  assumes "d < 10"
  shows "digit_val (digit_char d) = d" and "isdigit (digit_char d)"
proof -
  from assms have "d \<in> {0, 1, 2, 3, 4, 5, 6, 7, 8, 9}" by auto
  then show "digit_val (digit_char d) = d" and "isdigit (digit_char d)"
    by (auto simp: digit_char_def digit_val_def isdigit_def)
qed

lemma show_nat_props:
  "digits_val (show_nat n) = n \<and> (\<forall>c\<in>set (show_nat n). isdigit c) \<and> show_nat n \<noteq> []"
proof (induction n rule: show_nat.induct)
  case (1 n)
  show ?case
  proof (cases "n < 10")
    case True
    then show ?thesis
      by (subst (1 2 3) show_nat.simps) (simp add: digit_char_props digits_val_def)
  next
    case False
    have m: "n mod 10 < 10" by simp
    from False 1 have ih: "digits_val (show_nat (n div 10)) = n div 10"
      "\<forall>c\<in>set (show_nat (n div 10)). isdigit c" by simp_all
    from False ih m show ?thesis
      by (subst (1 2 3) show_nat.simps) (simp add: digits_val_snoc digit_char_props)
  qed
qed

lemma isdigit_not_space: "isdigit c \<Longrightarrow> \<not> isspace c \<and> c \<noteq> CHR ''-'' \<and> c \<noteq> CHR ''+''"
  by (auto simp: isdigit_def isspace_def)

lemma space_props: "isspace CHR '' ''" "\<not> isdigit CHR '' ''" "isspace CHR 0x0A"
  by (simp_all add: isspace_def isdigit_def)

lemma extract_show_int_end:
  assumes ws: "\<forall>c\<in>set ws. isspace c" and range: "INT_MIN \<le> v" "v \<le> INT_MAX"
    and rest: "rest = [] \<or> \<not> isdigit (hd rest)"
  shows "extract_int \<lparr>buf = ws @ show_int v @ rest, failbit = False\<rparr> old
         = (\<lparr>buf = rest, failbit = False\<rparr>, v)"
proof -
  define n where "n = nat \<bar>v\<bar>"
  define ds where "ds = show_nat n"
  have ds: "digits_val ds = n" "\<forall>c\<in>set ds. isdigit c" "ds \<noteq> []"
    using show_nat_props[of n] by (simp_all add: ds_def)
  then obtain d ds' where dsc: "ds = d # ds'" by (cases ds) auto
  with ds(2) have d: "isdigit d" by simp
  from rest have tw: "takeWhile isdigit (ds @ rest) = ds"
    using ds(2) by (cases rest) (simp_all add: takeWhile_append2)
  from rest have dw: "dropWhile isdigit (ds @ rest) = rest"
    using ds(2) by (cases rest) (simp_all add: dropWhile_append2)
  show ?thesis
  proof (cases "v < 0")
    case True
    then have sv: "show_int v = CHR ''-'' # ds"
      by (simp add: show_int_def ds_def n_def abs_if)
    have skip: "dropWhile isspace (ws @ show_int v @ rest) = CHR ''-'' # ds @ rest"
      using ws by (simp add: sv dropWhile_append2 isspace_def)
    from True have "- int n = v" by (simp add: n_def)
    then show ?thesis
      using range ds(1,3) by (simp add: extract_int_def skip tw dw Let_def)
  next
    case False
    then have sv: "show_int v = ds"
      by (simp add: show_int_def ds_def n_def abs_if)
    have skip: "dropWhile isspace (ws @ show_int v @ rest) = ds @ rest"
      using ws d isdigit_not_space[OF d] by (simp add: sv dropWhile_append2 dsc)
    have hdd: "hd (ds @ rest) = d" by (simp add: dsc)
    from False have "int n = v" by (simp add: n_def)
    then show ?thesis
      using range ds(1,3) isdigit_not_space[OF d]
      by (simp add: extract_int_def skip tw dw Let_def hdd)
  qed
qed

lemma extract_show_int:
  assumes ws: "\<forall>c\<in>set ws. isspace c" and range: "INT_MIN \<le> v" "v \<le> INT_MAX"
  shows "extract_int \<lparr>buf = ws @ show_int v @ CHR '' '' # rest, failbit = False\<rparr> old
         = (\<lparr>buf = CHR '' '' # rest, failbit = False\<rparr>, v)"
  using extract_show_int_end[OF assms, of "CHR '' '' # rest" old]
  by (simp add: space_props)

lemma load_cells_text:
  assumes "\<forall>c\<in>set ws. isspace c" and "\<forall>c\<in>set cs. INT_MIN \<le> g c \<and> g c \<le> INT_MAX"
  shows "foldl load_cell
           (\<lparr>buf = ws @ concat (map (\<lambda>c. show_int (g c) @ '' '') cs) @ rest, failbit = False\<rparr>, g0) cs
         = (\<lparr>buf = (if cs = [] then ws else '' '') @ rest, failbit = False\<rparr>,
            \<lambda>c. if c \<in> set cs then g c else g0 c)"
  using assms
proof (induction cs arbitrary: ws g0)
  case Nil
  then show ?case by simp
next
  case (Cons c cs)
  from Cons.prems have r: "INT_MIN \<le> g c" "g c \<le> INT_MAX" by simp_all
  have step: "load_cell (\<lparr>buf = ws @ show_int (g c) @ CHR '' '' # (concat (map (\<lambda>c. show_int (g c) @ '' '') cs) @ rest), failbit = False\<rparr>, g0) c
     = (\<lparr>buf = '' '' @ concat (map (\<lambda>c. show_int (g c) @ '' '') cs) @ rest, failbit = False\<rparr>, g0(c := g c))"
    using extract_show_int[OF Cons.prems(1) r] by (simp add: load_cell_def)
  have ih: "foldl load_cell (\<lparr>buf = '' '' @ concat (map (\<lambda>c. show_int (g c) @ '' '') cs) @ rest, failbit = False\<rparr>, g0(c := g c)) cs
      = (\<lparr>buf = (if cs = [] then '' '' else '' '') @ rest, failbit = False\<rparr>,
            \<lambda>c'. if c' \<in> set cs then g c' else (g0(c := g c)) c')"
    by (rule Cons.IH) (use Cons.prems in \<open>simp_all add: space_props\<close>)
  have "(\<lambda>c'. if c' \<in> set cs then g c' else (g0(c := g c)) c') = (\<lambda>c'. if c' \<in> set (c # cs) then g c' else g0 c')"
    by auto
  with step ih show ?case by simp
qed

lemma row_cells_nonempty: "row_cells i \<noteq> []"
  by (simp add: row_cells_def COLS_def SCREEN_WIDTH_def GRID_SIZE_def signed_divide_int_def upto_rec1[of 0])

lemma row_text_cells: "row_text g i = concat (map (\<lambda>c. show_int (g c) @ '' '') (row_cells i)) @ [CHR 0x0A]"
  by (simp add: row_text_def row_cells_def comp_def)

lemma load_rows_text:
  assumes "\<forall>c\<in>set ws. isspace c"
    and "\<forall>i\<in>set rows. \<forall>c\<in>set (row_cells i). INT_MIN \<le> g c \<and> g c \<le> INT_MAX"
  shows "foldl load_cell
           (\<lparr>buf = ws @ concat (map (row_text g) rows) @ rest, failbit = False\<rparr>, g0)
           (concat (map row_cells rows))
         = (\<lparr>buf = (if rows = [] then ws else [CHR '' '', CHR 0x0A]) @ rest, failbit = False\<rparr>,
            \<lambda>c. if c \<in> set (concat (map row_cells rows)) then g c else g0 c)"
  using assms
proof (induction rows arbitrary: ws g0)
  case Nil
  then show ?case by simp
next
  case (Cons i rows)
  let ?rest = "CHR 0x0A # concat (map (row_text g) rows) @ rest"
  have unf: "ws @ concat (map (row_text g) (i # rows)) @ rest
      = ws @ concat (map (\<lambda>c. show_int (g c) @ '' '') (row_cells i)) @ ?rest"
    by (simp add: row_text_cells)
  have row: "foldl load_cell
           (\<lparr>buf = ws @ concat (map (\<lambda>c. show_int (g c) @ '' '') (row_cells i)) @ ?rest, failbit = False\<rparr>, g0) (row_cells i)
         = (\<lparr>buf = [CHR '' '', CHR 0x0A] @ concat (map (row_text g) rows) @ rest, failbit = False\<rparr>,
            \<lambda>c. if c \<in> set (row_cells i) then g c else g0 c)"
    using load_cells_text[of ws "row_cells i" g ?rest g0] Cons.prems row_cells_nonempty[of i]
    by simp
  have ih: "foldl load_cell
           (\<lparr>buf = [CHR '' '', CHR 0x0A] @ concat (map (row_text g) rows) @ rest, failbit = False\<rparr>, \<lambda>c. if c \<in> set (row_cells i) then g c else g0 c)
           (concat (map row_cells rows))
         = (\<lparr>buf = (if rows = [] then [CHR '' '', CHR 0x0A] else [CHR '' '', CHR 0x0A]) @ rest, failbit = False\<rparr>,
            \<lambda>c. if c \<in> set (concat (map row_cells rows)) then g c else (\<lambda>c. if c \<in> set (row_cells i) then g c else g0 c) c)"
    by (rule Cons.IH) (use Cons.prems in \<open>simp_all add: space_props\<close>)
  have fn: "(\<lambda>c. if c \<in> set (concat (map row_cells rows)) then g c else (\<lambda>c. if c \<in> set (row_cells i) then g c else g0 c) c)
      = (\<lambda>c. if c \<in> set (concat (map row_cells (i # rows))) then g c else g0 c)"
    by auto
  have "foldl load_cell (\<lparr>buf = ws @ concat (map (row_text g) (i # rows)) @ rest, failbit = False\<rparr>, g0)
           (concat (map row_cells (i # rows)))
      = foldl load_cell (foldl load_cell
           (\<lparr>buf = ws @ concat (map (\<lambda>c. show_int (g c) @ '' '') (row_cells i)) @ ?rest, failbit = False\<rparr>, g0) (row_cells i))
           (concat (map row_cells rows))"
    using unf by simp
  also have "\<dots> = (\<lparr>buf = [CHR '' '', CHR 0x0A] @ rest, failbit = False\<rparr>,
            \<lambda>c. if c \<in> set (concat (map row_cells (i # rows))) then g c else g0 c)"
    by (simp only: row ih fn if_cancel)
  finally show ?case by simp
qed

lemma all_cells_rows: "all_cells = concat (map row_cells [0..ROWS - 1])"
  by (simp add: all_cells_def row_cells_def[abs_def])

lemma set_all_cells: "set all_cells = {c. in_bounds c}"
proof (rule set_eqI)
  fix c show "c \<in> set all_cells \<longleftrightarrow> c \<in> {c. in_bounds c}"
    by (cases c) (fastforce simp: all_cells_def in_bounds_def image_iff)
qed

lemma load_layout_text:
  assumes "\<forall>c. in_bounds c \<longrightarrow> INT_MIN \<le> g c \<and> g c \<le> INT_MAX"
  shows "loadLayout (Some (layout_text g)) g0 = (Loaded, \<lambda>c. if in_bounds c then g c else g0 c)"
proof -
  have "\<forall>i\<in>set [0..ROWS - 1]. \<forall>c\<in>set (row_cells i). INT_MIN \<le> g c \<and> g c \<le> INT_MAX"
    using assms set_all_cells by (auto simp: all_cells_rows)
  from load_rows_text[of "[]" "[0..ROWS - 1]" g "[]" g0, OF _ this]
  show ?thesis
    by (simp add: loadLayout_def layout_text_def all_cells_rows[symmetric] set_all_cells)
qed

text \<open>
  C8: for a grid whose cells hold only 0 and 1, loadLayout applied to the file saveLayout
  has written gives back the same grid: loading into the grid that was saved changes
  nothing, and loading into any other grid makes every cell of the grid equal to the cell
  saved.
\<close>

theorem save_then_load_is_identity:
  assumes "\<forall>c. in_bounds c \<longrightarrow> g c = 0 \<or> g c = 1"
  shows "saveLayout True g file = (Saved, Some (layout_text g))
       \<and> loadLayout (snd (saveLayout True g file)) g = (Loaded, g)
       \<and> (\<forall>c. in_bounds c \<longrightarrow> snd (loadLayout (snd (saveLayout True g file)) g0) c = g c)"
proof -
  have "\<forall>c. in_bounds c \<longrightarrow> INT_MIN \<le> g c \<and> g c \<le> INT_MAX"
    using assms by (auto simp: INT_MIN_def INT_MAX_def)
  then have l: "loadLayout (Some (layout_text g)) g1 = (Loaded, \<lambda>c. if in_bounds c then g c else g1 c)"
    for g1
    by (rule load_layout_text)
  have "(\<lambda>c. if in_bounds c then g c else g c) = g"
    by simp
  with l[of g] l[of g0] show ?thesis
    by (simp add: saveLayout_def)
qed

theorem save_then_load_is_identity_witness:
  "loadLayout (snd (saveLayout True one_obstacle_grid None)) one_obstacle_grid
     = (Loaded, one_obstacle_grid)
   \<and> snd (loadLayout (snd (saveLayout True one_obstacle_grid None)) (\<lambda>_. 0)) (Point 1 0) = 1"
proof -
  have h: "\<forall>c. in_bounds c \<longrightarrow> one_obstacle_grid c = 0 \<or> one_obstacle_grid c = 1"
    by (simp add: one_obstacle_grid_def)
  have "in_bounds (Point 1 0)" and "one_obstacle_grid (Point 1 0) = 1"
    by (simp_all add: in_bounds_def consts_defs one_obstacle_grid_def)
  with save_then_load_is_identity[OF h, of None "\<lambda>_. 0"] show ?thesis
    by auto
qed

lemma load_cells_at_end:
  assumes "\<forall>c\<in>set ws. isspace c"
  shows "snd (foldl load_cell (\<lparr>buf = ws, failbit = False\<rparr>, g) cs) = g"
proof (cases cs)
  case Nil
  then show ?thesis by simp
next
  case (Cons c cs')
  from assms have "dropWhile isspace ws = []" by simp
  then have "load_cell (\<lparr>buf = ws, failbit = False\<rparr>, g) c = (\<lparr>buf = [], failbit = True\<rparr>, g)"
    by (simp add: load_cell_def extract_int_def)
  then show ?thesis
    by (simp add: Cons load_cell_failed)
qed

lemma load_cells_tokens:
  assumes "int_file toks" and "length toks \<le> length cs" and "distinct cs"
    and "\<forall>c\<in>set ws. isspace c"
  shows "(\<forall>i<length toks.
            snd (foldl load_cell (\<lparr>buf = ws @ tokens_text toks, failbit = False\<rparr>, g) cs) (cs ! i)
            = fst (toks ! i))
       \<and> (\<forall>c. c \<notin> set (take (length toks) cs) \<longrightarrow>
            snd (foldl load_cell (\<lparr>buf = ws @ tokens_text toks, failbit = False\<rparr>, g) cs) c = g c)"
  using assms
proof (induction toks arbitrary: cs ws g)
  case Nil
  then show ?case by (simp add: tokens_text_def load_cells_at_end)
next
  case (Cons t toks)
  obtain v w where t: "t = (v, w)" by (cases t)
  from Cons.prems(2) obtain c cs' where cs: "cs = c # cs'" by (cases cs) auto
  from Cons.prems(1) have v: "INT_MIN \<le> v" "v \<le> INT_MAX" and w: "\<forall>c\<in>set w. isspace c"
    and sep: "toks \<noteq> [] \<Longrightarrow> w \<noteq> []" and tl_ok: "int_file toks"
    by (auto simp: int_file_def t split: if_splits)
  let ?rest = "w @ tokens_text toks"
  have "?rest = [] \<or> \<not> isdigit (hd ?rest)"
  proof (cases w)
    case Nil
    with sep have "toks = []" by auto
    with Nil show ?thesis by (simp add: tokens_text_def)
  next
    case (Cons a w')
    with w have "isspace a" by simp
    then have "\<not> isdigit a" using isdigit_not_space by blast
    with Cons show ?thesis by simp
  qed
  from extract_show_int_end[OF Cons.prems(4) v this]
  have step: "load_cell (\<lparr>buf = ws @ tokens_text (t # toks), failbit = False\<rparr>, g) c
      = (\<lparr>buf = w @ tokens_text toks, failbit = False\<rparr>, g(c := v))"
    by (simp add: load_cell_def tokens_text_def t)
  let ?g' = "snd (foldl load_cell (\<lparr>buf = w @ tokens_text toks, failbit = False\<rparr>, g(c := v)) cs')"
  have res: "snd (foldl load_cell (\<lparr>buf = ws @ tokens_text (t # toks), failbit = False\<rparr>, g) cs) = ?g'"
    by (simp add: cs step)
  from Cons.prems(2,3) have "length toks \<le> length cs'" "distinct cs'" and c: "c \<notin> set cs'"
    by (simp_all add: cs)
  note ih = Cons.IH[OF tl_ok this(1,2) w, of "g(c := v)"]
  from ih have ih1: "\<forall>i<length toks. ?g' (cs' ! i) = fst (toks ! i)"
    by (rule conjunct1)
  from ih have ih2: "\<forall>x. x \<notin> set (take (length toks) cs') \<longrightarrow> ?g' x = (g(c := v)) x"
    by (rule conjunct2)
  from c have "c \<notin> set (take (length toks) cs')" by (auto dest: in_set_takeD)
  with ih2 have g'c: "?g' c = v" by simp
  have "\<forall>i<length (t # toks). ?g' (cs ! i) = fst ((t # toks) ! i)"
  proof (intro allI impI)
    fix i assume "i < length (t # toks)"
    then show "?g' (cs ! i) = fst ((t # toks) ! i)"
      using ih1 g'c by (cases i) (simp_all add: cs t)
  qed
  moreover have "\<forall>x. x \<notin> set (take (length (t # toks)) cs) \<longrightarrow> ?g' x = g x"
    using ih2 by (simp add: cs)
  ultimately show ?case
    by (simp only: res) 
qed

lemma all_cells_product:
  "all_cells = map (\<lambda>(i, j). Point j i) (List.product [0..ROWS - 1] [0..COLS - 1])"
  by (simp add: all_cells_def product_concat_map map_concat comp_def)

lemma distinct_all_cells: "distinct all_cells"
  unfolding all_cells_product
  by (auto simp: distinct_map distinct_product inj_on_def)

lemma length_all_cells: "int (length all_cells) = ROWS * COLS"
  unfolding all_cells_product
  by (simp add: consts_defs)

lemma all_cells_take2: "take 2 all_cells = [Point 0 0, Point 1 0]"
  by (simp add: all_cells_def consts_defs upto_rec1[of 0] upto_rec1[of 1])

lemma nth_all_cells:
  assumes "int i < ROWS * COLS"
  shows "all_cells ! i = Point (int i mod COLS) (int i div COLS)"
proof -
  from assms have i: "i < 300" by (simp add: consts_defs)
  then have d: "i div 20 < 15" by simp
  have "List.product [0..14] [0..19] ! i = ([0..14] ! (i div 20), [0..19] ! (i mod 20))"
    using i by (simp add: product_nth)
  moreover have "[0..14] ! (i div 20) = int (i div 20)"
    using d by (simp add: nth_upto)
  moreover have "[0..19] ! (i mod 20) = int (i mod 20)"
    by (simp add: nth_upto)
  ultimately show ?thesis
    using i by (simp add: all_cells_product consts_defs zdiv_int zmod_int)
qed

lemma take_all_cells:
  assumes "c \<in> set (take n all_cells)"
  shows "in_bounds c \<and> py c * COLS + px c < int n"
proof -
  from assms obtain i where i: "i < n" "i < length all_cells" "c = all_cells ! i"
    by (auto simp: in_set_conv_nth)
  from i(2) have "int i < ROWS * COLS"
    using length_all_cells by linarith
  with i(3) have c: "c = Point (int i mod COLS) (int i div COLS)" and b: "int i < 300"
    by (simp_all add: nth_all_cells consts_defs)
  from b have "0 \<le> int i div 20" and "int i div 20 < 15" by simp_all
  with i(1) show ?thesis
    by (simp add: c in_bounds_def consts_defs)
qed

text \<open>
  C4, as stated, fails for a truncated file: loadLayout stores what it can parse and
  reports success. A file holding the single integer \<open>1\<close> is loaded into the empty grid
  with the message of a successful load, and cell \<open>(0, 0)\<close> has become an obstacle.
\<close>

theorem load_truncated_file_modifies_grid:
  "loadLayout (Some ''1'') (\<lambda>_. 0) = (Loaded, (\<lambda>_. 0)(Point 0 0 := 1))"
proof -
  have one: "load_cell (\<lparr>buf = ''1'', failbit = False\<rparr>, \<lambda>_. 0) (Point 0 0)
        = (\<lparr>buf = [], failbit = False\<rparr>, (\<lambda>_. 0)(Point 0 0 := 1))"
    by (simp add: load_cell_def extract_int_def isspace_def isdigit_def digits_val_def
        digit_val_def INT_MAX_def INT_MIN_def Let_def)
  have two: "load_cell (\<lparr>buf = [], failbit = False\<rparr>, g) c = (\<lparr>buf = [], failbit = True\<rparr>, g)"
    for g c
    by (simp add: load_cell_def extract_int_def)
  have "foldl load_cell (\<lparr>buf = [], failbit = False\<rparr>, g) cs
        = (\<lparr>buf = [], failbit = cs \<noteq> []\<rparr>, g)" for g cs
    by (cases cs) (simp_all add: two load_cell_failed)
  then have "snd (foldl load_cell (\<lparr>buf = ''1'', failbit = False\<rparr>, \<lambda>_. 0) all_cells)
             = (\<lambda>_. 0)(Point 0 0 := 1)"
    by (subst all_cells_split) (simp add: one)
  then show ?thesis
    by (simp add: loadLayout_def)
qed

text \<open>
  C4, amended: when the layout file cannot be opened, loadLayout reports the error and
  leaves warehouseGrid as it is, and the event loop goes on (the \<^verbatim>\<open>L\<close> key then only
  replans when a destination is set). A file that opens is always reported as loaded,
  whatever it holds. When it holds at most \<open>ROWS * COLS\<close> integers separated by white
  space, loadLayout stores the \<open>i\<close>-th of them in column \<open>i mod COLS\<close> of row
  \<open>i div COLS\<close>, the leading cells in row-major order, and leaves every other cell as
  it was.
\<close>

theorem loadLayout_unopened_or_truncated:
  assumes "int_file toks" and "int (length toks) \<le> ROWS * COLS" and "\<forall>c\<in>set ws. isspace c"
  shows "loadLayout None g = (LoadError, g)
       \<and> handle_event (KeyL None) s = replan_if_destination s
       \<and> fst (loadLayout (Some text) g) = Loaded
       \<and> (\<forall>i<length toks.
            snd (loadLayout (Some (ws @ tokens_text toks)) g) (Point (int i mod COLS) (int i div COLS))
            = fst (toks ! i))
       \<and> (\<forall>c. \<not> (in_bounds c \<and> py c * COLS + px c < int (length toks)) \<longrightarrow>
            snd (loadLayout (Some (ws @ tokens_text toks)) g) c = g c)"
proof -
  let ?g' = "snd (foldl load_cell (\<lparr>buf = ws @ tokens_text toks, failbit = False\<rparr>, g) all_cells)"
  from assms(2) have "length toks \<le> length all_cells"
    using length_all_cells by linarith
  note l = load_cells_tokens[OF assms(1) this distinct_all_cells assms(3), of g]
  from l have l1: "\<forall>i<length toks. ?g' (all_cells ! i) = fst (toks ! i)"
    by (rule conjunct1)
  from l have l2: "\<forall>c. c \<notin> set (take (length toks) all_cells) \<longrightarrow> ?g' c = g c"
    by (rule conjunct2)
  have "\<forall>i<length toks. ?g' (Point (int i mod COLS) (int i div COLS)) = fst (toks ! i)"
  proof (intro allI impI)
    fix i assume i: "i < length toks"
    with assms(2) have "int i < ROWS * COLS" by linarith
    then have "all_cells ! i = Point (int i mod COLS) (int i div COLS)"
      by (rule nth_all_cells)
    with l1 i show "?g' (Point (int i mod COLS) (int i div COLS)) = fst (toks ! i)"
      by metis
  qed
  moreover have "\<forall>c. \<not> (in_bounds c \<and> py c * COLS + px c < int (length toks)) \<longrightarrow> ?g' c = g c"
    using l2 take_all_cells by blast
  ultimately show ?thesis
    by (simp add: loadLayout_def)
qed

theorem loadLayout_unopened_or_truncated_witness:
  "loadLayout None (\<lambda>_. 0) = (LoadError, \<lambda>_. 0)
   \<and> loadLayout (Some ''1 1'') (\<lambda>_. 0) = (Loaded, snd (loadLayout (Some ''1 1'') (\<lambda>_. 0)))
   \<and> snd (loadLayout (Some ''1 1'') (\<lambda>_. 0)) (Point 0 0) = 1
   \<and> snd (loadLayout (Some ''1 1'') (\<lambda>_. 0)) (Point 1 0) = 1
   \<and> snd (loadLayout (Some ''1 1'') (\<lambda>_. 0)) (Point 2 0) = 0"
proof -
  have f: "int_file [(1, '' ''), (1, [])]"
    by (simp add: int_file_def isspace_def INT_MIN_def INT_MAX_def)
  have t: "[] @ tokens_text [(1, '' ''), (1, [])] = ''1 1''"
    by (simp add: tokens_text_def show_int_def show_nat.simps digit_char_def)
  from loadLayout_unopened_or_truncated[OF f, of "[]" "\<lambda>_. 0" init_state "''1 1''"]
  have "fst (loadLayout (Some ''1 1'') (\<lambda>_. 0)) = Loaded
     \<and> snd (loadLayout (Some ''1 1'') (\<lambda>_. 0)) (Point 0 0) = 1
     \<and> snd (loadLayout (Some ''1 1'') (\<lambda>_. 0)) (Point 1 0) = 1
     \<and> snd (loadLayout (Some ''1 1'') (\<lambda>_. 0)) (Point 2 0) = 0"
    unfolding t by (simp add: consts_defs All_less_Suc2 in_bounds_def)
  then show ?thesis
    by (simp add: loadLayout_def prod_eq_iff)
qed

subsection \<open>Routes and search trees\<close>

lemma traversable_valid: "isValidGridPosition g x y \<longleftrightarrow> traversable g (Point x y)"
  by (auto simp: isValidGridPosition_def traversable_def in_bounds_def)

lemma adjacent_target: "adjacent p q \<longleftrightarrow> q \<in> target p ` set dirs"
proof (cases p, cases q)
  fix a b c d
  assume "p = Point a b" "q = Point c d"
  then show ?thesis
    by (auto simp: adjacent_def target_def dirs_def)
qed

lemma adjacent_neq: "adjacent p q \<Longrightarrow> p \<noteq> q"
  by (auto simp: adjacent_def)

lemma route_from_append:
  "route_from g s (r1 @ r2) \<longleftrightarrow> route_from g s r1 \<and> route_from g (last (s # r1)) r2"
  by (induction r1 arbitrary: s) auto

lemma is_route_nil: "is_route g s e [] \<longleftrightarrow> e = s"
  by (auto simp: is_route_def)

lemma is_route_snoc:
  "is_route g s n (r @ [n']) \<longleftrightarrow>
     n' = n \<and> is_route g s (last (s # r)) r \<and> adjacent (last (s # r)) n \<and> traversable g n"
  by (auto simp: is_route_def route_from_append)

lemma is_route_last:
  assumes "is_route g s n r" "r \<noteq> []"
  obtains r' where "r = r' @ [n]" "is_route g s (last (s # r')) r'"
    "adjacent (last (s # r')) n" "traversable g n"
proof -
  from assms(2) obtain r' x where r: "r = r' @ [x]"
    by (cases r rule: rev_cases) auto
  with assms(1) have "x = n \<and> is_route g s (last (s # r')) r' \<and> adjacent (last (s # r')) n \<and> traversable g n"
    by (simp only: is_route_snoc)
  with r that show thesis by blast
qed

lemma is_route_traversable: "is_route g s e r \<Longrightarrow> e \<noteq> s \<Longrightarrow> traversable g e"
  by (cases r rule: rev_cases) (auto simp: is_route_nil is_route_snoc)

lemma reconstruct_tree:
  assumes "parent_tree g s par T d" and "T p"
  shows "\<exists>r. reconstruct par s p acc = Some (Inr (r @ rev acc))
           \<and> is_route g s p r \<and> length r = d p \<and> s \<notin> set r"
  using assms(2)
proof (induction "d p" arbitrary: p acc)
  case 0
  with assms(1) have "p = s" and "d s = 0"
    by (auto simp: parent_tree_def)
  then show ?case
    by (subst reconstruct.simps) (simp add: is_route_nil)
next
  case (Suc k)
  from Suc.hyps(2) assms(1) have ps: "p \<noteq> s"
    by (auto simp: parent_tree_def)
  with assms(1) Suc.prems have p: "traversable g p" "T (par p)" "adjacent (par p) p"
    "d p = d (par p) + 1"
    by (auto simp: parent_tree_def)
  from p(4) Suc.hyps(2) have "k = d (par p)" by simp
  from Suc.hyps(1)[OF this p(2), of "acc @ [p]"] obtain r where
    r: "reconstruct par s (par p) (acc @ [p]) = Some (Inr (r @ rev (acc @ [p])))"
       "is_route g s (par p) r" "length r = d (par p)" "s \<notin> set r"
    by blast
  have "is_route g s p (r @ [p])"
    using r(2) p(1,3) by (auto simp: is_route_def route_from_append)
  moreover have "reconstruct par s p acc = Some (Inr ((r @ [p]) @ rev acc))"
    using ps p(1) r(1) by (subst reconstruct.simps) (simp add: traversable_def)
  ultimately show ?case
    using r(3,4) p(4) ps by (intro exI[of _ "r @ [p]"]) simp
qed

subsection \<open>Correctness of findPath\<close>

lemma bfs_invD:
  assumes "bfs_inv g s e d N v par q"
  shows "in_bounds s" and "parent_tree g s par v d"
    and "\<And>p. p \<in> set q \<Longrightarrow> v p"
    and "sorted (map d q)"
    and "\<And>p. p \<in> set q \<Longrightarrow> d p \<le> d (hd q) + 1"
    and "\<And>p r. v p \<Longrightarrow> is_route g s p r \<Longrightarrow> d p \<le> length r"
    and "\<And>p n. v p \<Longrightarrow> adjacent p n \<Longrightarrow> traversable g n
           \<Longrightarrow> p \<notin> set q \<or> p = hd q \<and> n \<in> N \<Longrightarrow> v n"
    and "\<And>n r. \<not> v n \<Longrightarrow> is_route g s n r \<Longrightarrow> q \<noteq> [] \<Longrightarrow> d (hd q) + 1 \<le> length r"
    and "\<And>p. v p \<Longrightarrow> p \<notin> set q \<Longrightarrow> p \<noteq> e"
proof -
  note a = assms[unfolded bfs_inv_def]
  from a show "in_bounds s" by (elim conjE)
  from a show "parent_tree g s par v d" by (elim conjE)
  from a have "\<forall>p\<in>set q. v p" by (elim conjE)
  then show "\<And>p. p \<in> set q \<Longrightarrow> v p" by (rule bspec)
  from a show "sorted (map d q)" by (elim conjE)
  from a have "\<forall>p\<in>set q. d p \<le> d (hd q) + 1" by (elim conjE)
  then show "\<And>p. p \<in> set q \<Longrightarrow> d p \<le> d (hd q) + 1" by (rule bspec)
  from a have "\<forall>p r. v p \<and> is_route g s p r \<longrightarrow> d p \<le> length r" by (elim conjE)
  then show "\<And>p r. v p \<Longrightarrow> is_route g s p r \<Longrightarrow> d p \<le> length r" by (elim allE impE) simp_all
  from a have "\<forall>p n. v p \<and> adjacent p n \<and> traversable g n \<and> (p \<notin> set q \<or> p = hd q \<and> n \<in> N) \<longrightarrow> v n"
    by (elim conjE)
  then show "\<And>p n. v p \<Longrightarrow> adjacent p n \<Longrightarrow> traversable g n
           \<Longrightarrow> p \<notin> set q \<or> p = hd q \<and> n \<in> N \<Longrightarrow> v n" by (elim allE impE) simp_all
  from a have "\<forall>n r. \<not> v n \<and> is_route g s n r \<and> q \<noteq> [] \<longrightarrow> d (hd q) + 1 \<le> length r"
    by (elim conjE)
  then show "\<And>n r. \<not> v n \<Longrightarrow> is_route g s n r \<Longrightarrow> q \<noteq> [] \<Longrightarrow> d (hd q) + 1 \<le> length r"
    by (elim allE impE) simp_all
  from a have "\<forall>p. v p \<and> p \<notin> set q \<longrightarrow> p \<noteq> e" by (elim conjE)
  then show "\<And>p. v p \<Longrightarrow> p \<notin> set q \<Longrightarrow> p \<noteq> e" by (elim allE impE) simp_all
qed

lemma bfs_visit_target:
  "bfs_visit g cur (v, par, q) d =
     (if traversable g (target cur d) \<and> \<not> v (target cur d)
      then (v(target cur d := True), par(target cur d := cur), q @ [target cur d])
      else (v, par, q))"
  by (simp add: bfs_visit_def target_def Let_def traversable_valid)

lemma bfs_inv_init:
  assumes "in_bounds s"
  shows "bfs_inv g s e (\<lambda>_. 0) {} ((\<lambda>_. False)(s := True)) par [s]"
proof -
  let ?v = "(\<lambda>_. False)(s := True)"
  let ?d = "\<lambda>_::Point. 0::nat"
  have len: "?d (hd [s]) + 1 \<le> length r" if "\<not> ?v n \<and> is_route g s n r \<and> [s] \<noteq> []" for n r
  proof -
    from that have "n \<noteq> s" and "is_route g s n r" by (simp_all split: if_splits)
    then have "r \<noteq> []" by (auto simp: is_route_nil)
    then show ?thesis by (cases r) auto
  qed
  show ?thesis
    unfolding bfs_inv_def
  proof (intro conjI)
    show "in_bounds s" by fact
    show "parent_tree g s par ?v ?d" by (simp add: parent_tree_def)
    show "\<forall>n r. \<not> ?v n \<and> is_route g s n r \<and> [s] \<noteq> [] \<longrightarrow> ?d (hd [s]) + 1 \<le> length r"
      using len by blast
  qed simp_all
qed

lemma bfs_inv_visit:
  assumes inv: "bfs_inv g s e d N v par (cur # q)"
    and step: "bfs_visit g cur (v, par, q) dir = (v', par', q')"
    and dir: "dir \<in> set dirs"
  shows "\<exists>d'. bfs_inv g s e d' (insert (target cur dir) N) v' par' (cur # q')"
proof -
  define n where "n = target cur dir"
  have adj: "adjacent cur n"
    using dir by (simp add: adjacent_target n_def)
  note D = bfs_invD[OF inv]
  have tree: "parent_tree g s par v d" and inb: "in_bounds s"
    and srt: "sorted (map d (cur # q))"
    using D(1,2,4) by blast+
  have vq: "\<forall>p\<in>set (cur # q). v p"
    using D(3) by blast
  have bnd: "\<forall>p\<in>set (cur # q). d p \<le> d cur + 1"
  proof
    fix p assume "p \<in> set (cur # q)"
    from D(5)[OF this] show "d p \<le> d cur + 1" by simp
  qed
  have opt: "\<forall>p r. v p \<and> is_route g s p r \<longrightarrow> d p \<le> length r"
    using D(6) by blast
  have clo: "\<forall>p m. v p \<and> adjacent p m \<and> traversable g m \<and> (p \<notin> set (cur # q) \<or> p = cur \<and> m \<in> N) \<longrightarrow> v m"
  proof (intro allI impI)
    fix p m
    assume a: "v p \<and> adjacent p m \<and> traversable g m \<and> (p \<notin> set (cur # q) \<or> p = cur \<and> m \<in> N)"
    then have "p \<notin> set (cur # q) \<or> p = hd (cur # q) \<and> m \<in> N" by simp
    with D(7)[of p m] a show "v m" by blast
  qed
  have lvl: "\<forall>m r. \<not> v m \<and> is_route g s m r \<longrightarrow> d cur + 1 \<le> length r"
  proof (intro allI impI)
    fix m r
    assume a: "\<not> v m \<and> is_route g s m r"
    with D(8)[of m r] show "d cur + 1 \<le> length r" by simp
  qed
  have pop: "\<forall>p. v p \<and> p \<notin> set (cur # q) \<longrightarrow> p \<noteq> e"
    using D(9) by blast
  show ?thesis
  proof (cases "traversable g n \<and> \<not> v n")
  case False
  with step have eq: "v' = v" "par' = par" "q' = q"
    by (auto simp: bfs_visit_target n_def split: if_splits)
  have clo': "\<forall>p m. v p \<and> adjacent p m \<and> traversable g m
                \<and> (p \<notin> set (cur # q) \<or> p = hd (cur # q) \<and> m \<in> insert n N) \<longrightarrow> v m"
  proof (intro allI impI)
    fix p m
    assume a: "v p \<and> adjacent p m \<and> traversable g m
                \<and> (p \<notin> set (cur # q) \<or> p = hd (cur # q) \<and> m \<in> insert n N)"
    show "v m"
    proof (cases "m = n")
      case True
      with a False show ?thesis by blast
    next
      case False
      with a have "v p \<and> adjacent p m \<and> traversable g m \<and> (p \<notin> set (cur # q) \<or> p = cur \<and> m \<in> N)"
        by simp
      with clo show ?thesis by blast
    qed
  qed
  have "bfs_inv g s e d (insert n N) v par (cur # q)"
    unfolding bfs_inv_def
  proof (intro conjI)
    show "\<forall>p\<in>set (cur # q). d p \<le> d (hd (cur # q)) + 1" using bnd by simp
    show "\<forall>n r. \<not> v n \<and> is_route g s n r \<and> cur # q \<noteq> [] \<longrightarrow> d (hd (cur # q)) + 1 \<le> length r"
      using lvl by simp
  qed (fact inb tree vq srt opt clo' pop)+
  with eq show ?thesis unfolding n_def by blast
next
  case True
  then have n: "traversable g n" "\<not> v n" by simp_all
  from step True have eq: "v' = v(n := True)" "par' = par(n := cur)" "q' = q @ [n]"
    by (simp_all add: bfs_visit_target n_def)
  define d' where "d' = d(n := d cur + 1)"
  from vq have vcur: "v cur" by simp
  from vq n(2) have nq: "n \<notin> set (cur # q)" by auto
  have d_old: "d' p = d p" if "v p" for p
    using that n(2) by (auto simp: d'_def)
  have map_old: "map d' (cur # q) = map d (cur # q)"
    using vq d_old by (simp del: list.map)
  have tree': "parent_tree g s par' v' d'"
    unfolding parent_tree_def
  proof (intro conjI allI impI)
    from tree show "v' s" by (simp add: parent_tree_def eq)
    from tree show "d' s = 0" by (auto simp: parent_tree_def d_old)
  next
    fix p assume p: "v' p \<and> p \<noteq> s"
    show "traversable g p" "v' (par' p)" "adjacent (par' p) p" "d' p = d' (par' p) + 1"
    proof -
      consider "p = n" | "p \<noteq> n" "v p" using p by (auto simp: eq)
      then have "traversable g p \<and> v' (par' p) \<and> adjacent (par' p) p \<and> d' p = d' (par' p) + 1"
      proof cases
        case 1
        then show ?thesis
          using n adj vcur by (auto simp: eq d'_def)
      next
        case 2
        with tree p have *: "traversable g p" "v (par p)" "adjacent (par p) p" "d p = d (par p) + 1"
          by (auto simp: parent_tree_def)
        then show ?thesis
          using 2 d_old by (auto simp: eq)
      qed
      then show "traversable g p" "v' (par' p)" "adjacent (par' p) p" "d' p = d' (par' p) + 1"
        by blast+
    qed
  qed
  have vq': "\<forall>p\<in>set (cur # q'). v' p"
    using vq by (auto simp: eq)
  have "map d' (cur # q') = map d (cur # q) @ [d cur + 1]"
    using map_old by (simp add: eq d'_def)
  then have srt': "sorted (map d' (cur # q'))"
    using srt bnd by (simp only: sorted_append) auto
  have bnd': "\<forall>p\<in>set (cur # q'). d' p \<le> d' (hd (cur # q')) + 1"
    using bnd vq d_old vcur by (auto simp: eq d'_def)
  have opt': "\<forall>p r. v' p \<and> is_route g s p r \<longrightarrow> d' p \<le> length r"
  proof (intro allI impI)
    fix p r assume a: "v' p \<and> is_route g s p r"
    show "d' p \<le> length r"
    proof (cases "p = n")
      case True
      with a lvl n(2) have "d cur + 1 \<le> length r" by blast
      with True show ?thesis by (simp add: d'_def)
    next
      case False
      with a have "v p" by (simp add: eq)
      with a opt d_old show ?thesis by auto
    qed
  qed
  have clo': "\<forall>p m. v' p \<and> adjacent p m \<and> traversable g m
                \<and> (p \<notin> set (cur # q') \<or> p = hd (cur # q') \<and> m \<in> insert n N) \<longrightarrow> v' m"
  proof (intro allI impI)
    fix p m
    assume a: "v' p \<and> adjacent p m \<and> traversable g m
                \<and> (p \<notin> set (cur # q') \<or> p = hd (cur # q') \<and> m \<in> insert n N)"
    show "v' m"
    proof (cases "m = n")
      case True
      then show ?thesis by (simp add: eq)
    next
      case False
      from a have "p \<noteq> n \<or> p = cur" by (auto simp: eq)
      with a vcur have "v p" by (auto simp: eq)
      with a False clo have "v m" by (auto simp: eq)
      then show ?thesis by (simp add: eq)
    qed
  qed
  have lvl': "\<forall>m r. \<not> v' m \<and> is_route g s m r \<and> cur # q' \<noteq> [] \<longrightarrow> d' (hd (cur # q')) + 1 \<le> length r"
    using lvl d_old vcur by (auto simp: eq)
  have pop': "\<forall>p. v' p \<and> p \<notin> set (cur # q') \<longrightarrow> p \<noteq> e"
    using pop by (auto simp: eq)
  have "bfs_inv g s e d' (insert n N) v' par' (cur # q')"
    unfolding bfs_inv_def
    by (intro conjI) (fact inb tree' vq' srt' bnd' opt' clo' lvl' pop')+
  then show ?thesis
    unfolding n_def by blast
  qed
qed

lemma bfs_inv_foldl:
  assumes "bfs_inv g s e d N v par (cur # q)"
    and "foldl (bfs_visit g cur) (v, par, q) ds = (v', par', q')"
    and "set ds \<subseteq> set dirs"
  shows "\<exists>d'. bfs_inv g s e d' (N \<union> target cur ` set ds) v' par' (cur # q')"
  using assms
proof (induction ds arbitrary: d N v par q)
  case Nil
  then show ?case by auto
next
  case (Cons dir ds)
  obtain v1 par1 q1 where s1: "bfs_visit g cur (v, par, q) dir = (v1, par1, q1)"
    by (cases "bfs_visit g cur (v, par, q) dir") auto
  from Cons.prems(3) have dir: "dir \<in> set dirs" and ds: "set ds \<subseteq> set dirs" by auto
  from bfs_inv_visit[OF Cons.prems(1) s1 dir] obtain d1 where
    "bfs_inv g s e d1 (insert (target cur dir) N) v1 par1 (cur # q1)" by blast
  moreover from Cons.prems(2) s1 have "foldl (bfs_visit g cur) (v1, par1, q1) ds = (v', par', q')"
    by simp
  ultimately have "\<exists>d'. bfs_inv g s e d' (insert (target cur dir) N \<union> target cur ` set ds) v' par' (cur # q')"
    using ds by (rule Cons.IH)
  then show ?case by simp
qed

lemma bfs_inv_pop:
  assumes inv: "bfs_inv g s e d {n. adjacent cur n} v par (cur # q)" and ne: "cur \<noteq> e"
  shows "bfs_inv g s e d {} v par q"
proof -
  note D = bfs_invD[OF inv]
  have tree: "parent_tree g s par v d" and inb: "in_bounds s"
    and srt: "sorted (map d (cur # q))"
    using D(1,2,4) by blast+
  have vq: "\<forall>p\<in>set (cur # q). v p"
    using D(3) by blast
  have bnd: "\<forall>p\<in>set (cur # q). d p \<le> d cur + 1"
  proof
    fix p assume "p \<in> set (cur # q)"
    from D(5)[OF this] show "d p \<le> d cur + 1" by simp
  qed
  have opt: "\<forall>p r. v p \<and> is_route g s p r \<longrightarrow> d p \<le> length r"
    using D(6) by blast
  have clo: "\<forall>p m. v p \<and> adjacent p m \<and> traversable g m \<and> (p \<notin> set (cur # q) \<or> p = cur \<and> adjacent cur m) \<longrightarrow> v m"
  proof (intro allI impI)
    fix p m
    assume a: "v p \<and> adjacent p m \<and> traversable g m \<and> (p \<notin> set (cur # q) \<or> p = cur \<and> adjacent cur m)"
    then have "p \<notin> set (cur # q) \<or> p = hd (cur # q) \<and> m \<in> {n. adjacent cur n}" by simp
    with D(7)[of p m] a show "v m" by blast
  qed
  have lvl: "\<forall>m r. \<not> v m \<and> is_route g s m r \<longrightarrow> d cur + 1 \<le> length r"
  proof (intro allI impI)
    fix m r
    assume a: "\<not> v m \<and> is_route g s m r"
    with D(8)[of m r] show "d cur + 1 \<le> length r" by simp
  qed
  have pop: "\<forall>p. v p \<and> p \<notin> set (cur # q) \<longrightarrow> p \<noteq> e"
    using D(9) by blast
  have clo': "\<forall>p m. v p \<and> adjacent p m \<and> traversable g m \<and> (p \<notin> set q \<or> p = hd q \<and> m \<in> {}) \<longrightarrow> v m"
    using clo by auto
  have hd_ge: "d cur \<le> d (hd q)" if "q \<noteq> []"
    using srt that by (cases q) auto
  have q_ge: "d (hd q) \<le> d p" if "p \<in> set q" for p
    using srt that by (cases q) auto
  have bnd': "\<forall>p\<in>set q. d p \<le> d (hd q) + 1"
  proof
    fix p assume p: "p \<in> set q"
    then have "q \<noteq> []" by auto
    from hd_ge[OF this] bnd p show "d p \<le> d (hd q) + 1" by auto
  qed
  have lvl': "\<forall>m r. \<not> v m \<and> is_route g s m r \<and> q \<noteq> [] \<longrightarrow> d (hd q) + 1 \<le> length r"
  proof (intro allI impI)
    fix m r assume a: "\<not> v m \<and> is_route g s m r \<and> q \<noteq> []"
    then have l1: "d cur + 1 \<le> length r" using lvl by blast
    have hq: "hd q \<in> set q" using a by simp
    with bnd have hd_le: "d (hd q) \<le> d cur + 1" by simp
    show "d (hd q) + 1 \<le> length r"
    proof (rule ccontr)
      assume "\<not> d (hd q) + 1 \<le> length r"
      with l1 hd_le have len: "length r = d cur + 1" and dh: "d (hd q) = d cur + 1" by simp_all
      then have "r \<noteq> []" by auto
      with a obtain r' where r': "r = r' @ [m]" "is_route g s (last (s # r')) r'"
          "adjacent (last (s # r')) m" "traversable g m"
        by (auto elim: is_route_last)
      define k where "k = last (s # r')"
      from r'(1) len have lr': "length r' = d cur" by simp
      have vk: "v k"
      proof (rule ccontr)
        assume "\<not> v k"
        with lvl r'(2) have "d cur + 1 \<le> length r'" unfolding k_def by blast
        with lr' show False by simp
      qed
      from opt vk r'(2) have "d k \<le> length r'" unfolding k_def by blast
      with lr' have dk: "d k \<le> d cur" by simp
      have "k \<in> set q"
      proof (rule ccontr)
        assume "k \<notin> set q"
        with clo' vk r'(3,4) have "v m" unfolding k_def by blast
        with a show False by simp
      qed
      from q_ge[OF this] dk dh show False by simp
    qed
  qed
  have pop': "\<forall>p. v p \<and> p \<notin> set q \<longrightarrow> p \<noteq> e"
    using pop ne by auto
  from srt have srt': "sorted (map d q)" by simp
  have vq': "\<forall>p\<in>set q. v p" using vq by simp
  show ?thesis
    unfolding bfs_inv_def
    by (intro conjI) (fact inb tree vq' srt' bnd' opt clo' lvl' pop')+
qed

lemma adjacent_set: "{n. adjacent cur n} = target cur ` set dirs"
  by (auto simp: adjacent_target)

lemma bfs_inv_expand:
  assumes "bfs_inv g s e d {} v par (cur # q)" and "cur \<noteq> e"
    and "foldl (bfs_visit g cur) (v, par, q) dirs = (v', par', q')"
  shows "\<exists>d'. bfs_inv g s e d' {} v' par' q'"
proof -
  from bfs_inv_foldl[OF assms(1,3) subset_refl] obtain d' where
    "bfs_inv g s e d' ({} \<union> target cur ` set dirs) v' par' (cur # q')" by blast
  then have "bfs_inv g s e d' {n. adjacent cur n} v' par' (cur # q')"
    by (simp add: adjacent_set)
  from bfs_inv_pop[OF this assms(2)] show ?thesis by blast
qed

text \<open>When the queue is empty, the visited cells are closed under traversable steps.\<close>

lemma closed_route:
  assumes "\<forall>p n. v p \<and> adjacent p n \<and> traversable g n \<longrightarrow> v n" and "v s" and "route_from g s r"
  shows "v (last (s # r))"
  using assms(2,3)
proof (induction r arbitrary: s)
  case Nil
  then show ?case by simp
next
  case (Cons p r)
  with assms(1) have "v p" by auto
  with Cons show ?case by auto
qed

lemma bfs_loop_correct_aux:
  "(case st of (v, par, q) \<Rightarrow> \<exists>d. bfs_inv g s e d {} v par q) \<Longrightarrow>
     \<exists>p. bfs_loop g s e st = Some (Inr p) \<and> search_post g s e p"
proof (induction g s e st rule: bfs_loop.induct)
  case (1 g s e v par q)
  from "1.prems" obtain d where inv: "bfs_inv g s e d {} v par q" by auto
  note D = bfs_invD[OF inv]
  show ?case
  proof (cases q)
    case Nil
    have clo: "\<forall>p n. v p \<and> adjacent p n \<and> traversable g n \<longrightarrow> v n"
      using D(7) Nil by auto
    have vs: "v s" using D(2) by (simp add: parent_tree_def)
    have ne: "\<not> v e" using D(9)[of e] Nil by auto
    have "\<not> is_route g s e r" for r
      using closed_route[OF clo vs, of r] ne by (auto simp: is_route_def)
    then have "search_post g s e []"
      by (simp add: search_post_def)
    moreover have "bfs_loop g s e (v, par, q) = Some (Inr [])"
      using Nil by (subst bfs_loop.simps) simp
    ultimately show ?thesis by blast
  next
    case (Cons cur rest)
    show ?thesis
    proof (cases "cur = e")
      case True
      have ve: "v e" using D(3)[of cur] Cons True by simp
      from reconstruct_tree[OF D(2) ve, of "[]"] obtain r where
        r: "reconstruct par s e [] = Some (Inr r)" "is_route g s e r" "length r = d e" "s \<notin> set r"
        by auto
      have "\<forall>r'. is_route g s e r' \<longrightarrow> length r \<le> length r'"
        using D(6)[OF ve] r(3) by simp
      with r(2,4) have "search_post g s e r"
        unfolding search_post_def by blast
      moreover have "bfs_loop g s e (v, par, q) = Some (Inr r)"
        using Cons True r(1) by (subst bfs_loop.simps) simp
      ultimately show ?thesis by blast
    next
      case False
      obtain v' par' q' where f: "foldl (bfs_visit g cur) (v, par, rest) dirs = (v', par', q')"
        by (cases "foldl (bfs_visit g cur) (v, par, rest) dirs") auto
      from inv Cons have "bfs_inv g s e d {} v par (cur # rest)" by simp
      from bfs_inv_expand[OF this False f] have "\<exists>d'. bfs_inv g s e d' {} v' par' q'" .
      then have "case foldl (bfs_visit g cur) (v, par, rest) dirs of
                   (v, par, q) \<Rightarrow> \<exists>d. bfs_inv g s e d {} v par q"
        by (simp add: f)
      from "1.IH"[OF Cons False this]
      have "\<exists>p. bfs_loop g s e (foldl (bfs_visit g cur) (v, par, rest) dirs) = Some (Inr p)
                \<and> search_post g s e p" .
      moreover have "bfs_loop g s e (v, par, q)
                     = bfs_loop g s e (foldl (bfs_visit g cur) (v, par, rest) dirs)"
        using Cons False by (subst bfs_loop.simps) simp
      ultimately show ?thesis by simp
    qed
  qed
qed

lemma findPath_correct:
  assumes "in_bounds s"
  shows "\<exists>p. findPath g s e = Some (Inr p) \<and> search_post g s e p"
proof -
  have "case ((\<lambda>_. False)(s := True), \<lambda>_. Point (- 1) (- 1), [s]) of
          (v, par, q) \<Rightarrow> \<exists>d. bfs_inv g s e d {} v par q"
    using bfs_inv_init[OF assms] by auto
  from bfs_loop_correct_aux[OF this] show ?thesis
    using assms by (simp add: findPath_def)
qed

subsection \<open>Correctness of A* over any open set\<close>

lemma pq_okD:
  assumes "pq_ok I push pop"
  shows "I []"
    and "\<And>x c. I c \<Longrightarrow> I (push x c)"
    and "\<And>x c. I c \<Longrightarrow> mset (push x c) = add_mset x (mset c)"
    and "\<And>c. I c \<Longrightarrow> c \<noteq> [] \<Longrightarrow> I (pop c)"
    and "\<And>c. I c \<Longrightarrow> c \<noteq> [] \<Longrightarrow> add_mset (hd c) (mset (pop c)) = mset c"
    and "\<And>c y. I c \<Longrightarrow> c \<noteq> [] \<Longrightarrow> y \<in> set c \<Longrightarrow> snd (hd c) \<le> snd y"
proof -
  note a = assms[unfolded pq_ok_def]
  from a show "I []" by (elim conjE)
  from a have p: "\<forall>x c. I c \<longrightarrow> I (push x c) \<and> mset (push x c) = add_mset x (mset c)"
    by (elim conjE)
  from p show "\<And>x c. I c \<Longrightarrow> I (push x c)" by blast
  from p show "\<And>x c. I c \<Longrightarrow> mset (push x c) = add_mset x (mset c)" by blast
  from a have q: "\<forall>c. I c \<and> c \<noteq> [] \<longrightarrow>
        I (pop c) \<and> add_mset (hd c) (mset (pop c)) = mset c \<and> (\<forall>y\<in>set c. snd (hd c) \<le> snd y)"
    by (elim conjE)
  from q show "\<And>c. I c \<Longrightarrow> c \<noteq> [] \<Longrightarrow> I (pop c)" by blast
  from q show "\<And>c. I c \<Longrightarrow> c \<noteq> [] \<Longrightarrow> add_mset (hd c) (mset (pop c)) = mset c" by blast
  from q show "\<And>c y. I c \<Longrightarrow> c \<noteq> [] \<Longrightarrow> y \<in> set c \<Longrightarrow> snd (hd c) \<le> snd y" by blast
qed

lemma pq_push_set: "pq_ok I push pop \<Longrightarrow> I c \<Longrightarrow> set (push x c) = insert x (set c)"
  using pq_okD(3)[of I push pop c x] by (metis set_mset_add_mset_insert set_mset_mset)

lemma pq_push_length: "pq_ok I push pop \<Longrightarrow> I c \<Longrightarrow> length (push x c) = Suc (length c)"
  using pq_okD(3)[of I push pop c x] by (metis size_add_mset size_mset)

lemma pq_pop_set:
  assumes "pq_ok I push pop" "I c" "c \<noteq> []"
  shows "set (pop c) \<subseteq> set c" and "set c \<subseteq> insert (hd c) (set (pop c))"
proof -
  have "set_mset (mset c) = insert (hd c) (set_mset (mset (pop c)))"
    using pq_okD(5)[OF assms] by (metis set_mset_add_mset_insert)
  then have "set c = insert (hd c) (set (pop c))" by simp
  then show "set (pop c) \<subseteq> set c" and "set c \<subseteq> insert (hd c) (set (pop c))" by auto
qed

lemma pq_pop_length:
  assumes "pq_ok I push pop" "I c" "c \<noteq> []"
  shows "Suc (length (pop c)) = length c"
  using pq_okD(5)[OF assms] by (metis size_add_mset size_mset)

lemma hcost_adjacent: "adjacent p q \<Longrightarrow> hcost e p \<le> hcost e q + 1"
  by (auto simp: adjacent_def hcost_def)

lemma hcost_route: "route_from g n r \<Longrightarrow> hcost e n \<le> hcost e (last (n # r)) + int (length r)"
proof (induction r arbitrary: n)
  case Nil
  then show ?case by simp
next
  case (Cons p r)
  then have "hcost e p \<le> hcost e (last (p # r)) + int (length r)" by simp
  moreover from Cons.prems have "hcost e n \<le> hcost e p + 1"
    by (simp add: hcost_adjacent)
  ultimately show ?case by simp
qed

lemma route_split:
  assumes "route_from g s r" and "V s" and "\<not> V (last (s # r))"
  shows "\<exists>r1 n r2. r = r1 @ n # r2 \<and> route_from g s r1 \<and> V (last (s # r1)) \<and> \<not> V n
           \<and> adjacent (last (s # r1)) n \<and> traversable g n \<and> route_from g n r2"
  using assms
proof (induction r arbitrary: s)
  case Nil
  then show ?case by simp
next
  case (Cons p r)
  show ?case
  proof (cases "V p")
    case False
    with Cons.prems have "p # r = [] @ p # r \<and> route_from g s [] \<and> V (last (s # [])) \<and> \<not> V p
           \<and> adjacent (last (s # [])) p \<and> traversable g p \<and> route_from g p r"
      by simp
    then show ?thesis by blast
  next
    case True
    from Cons.prems have "route_from g p r" "\<not> V (last (p # r))" by simp_all
    from Cons.IH[OF this(1) True this(2)] obtain r1 n r2 where
      *: "r = r1 @ n # r2" "route_from g p r1" "V (last (p # r1))" "\<not> V n"
         "adjacent (last (p # r1)) n" "traversable g n" "route_from g n r2"
      by blast
    from * Cons.prems have "p # r = (p # r1) @ n # r2 \<and> route_from g s (p # r1)
           \<and> V (last (s # p # r1)) \<and> \<not> V n
           \<and> adjacent (last (s # p # r1)) n \<and> traversable g n \<and> route_from g n r2"
      by simp
    then show ?thesis by blast
  qed
qed

lemma card_in_bounds: "card {c. in_bounds c} = 300"
proof -
  have "inj_on (\<lambda>(a, b). Point a b) ({0..<COLS} \<times> {0..<ROWS})"
    by (auto simp: inj_on_def)
  then have "card {c. in_bounds c} = card ({0..<COLS} \<times> {0..<ROWS})"
    unfolding in_bounds_eq by (rule card_image)
  then show ?thesis
    by (simp add: COLS_eq ROWS_eq)
qed

lemma card_visited_le:
  assumes "\<forall>p. V p \<longrightarrow> in_bounds p"
  shows "finite {q. V q}" and "card {q. V q} \<le> 300"
proof -
  have sub: "{q. V q} \<subseteq> {c. in_bounds c}" using assms by auto
  then show "finite {q. V q}" by (rule finite_subset) (rule finite_in_bounds)
  from card_mono[OF finite_in_bounds sub] show "card {q. V q} \<le> 300"
    by (simp add: card_in_bounds)
qed

lemma astar_invD:
  assumes "astar_inv I g s e cur N V par gc ol"
  shows "in_bounds s \<and> V s \<and> gc s = 0 \<and> e \<noteq> s \<and> \<not> V e"
    and "\<And>p. gc p < INT_MAX \<Longrightarrow> p \<noteq> s \<Longrightarrow>
        traversable g p \<and> V (par p) \<and> adjacent (par p) p \<and> gc p = gc (par p) + 1"
    and "\<And>p. V p \<Longrightarrow> in_bounds p \<and> 0 \<le> gc p \<and> gc p + 1 \<le> int (card {q. V q})"
    and "\<And>p r. V p \<Longrightarrow> is_route g s p r \<Longrightarrow> gc p \<le> int (length r)"
    and "\<And>p. gc p < INT_MAX \<Longrightarrow> \<not> V p \<Longrightarrow> (p, gc p + hcost e p) \<in> set ol"
    and "\<And>x. x \<in> set ol \<Longrightarrow> gc (fst x) < INT_MAX \<and> gc (fst x) + hcost e (fst x) \<le> snd x"
    and "\<And>p n. V p \<Longrightarrow> adjacent p n \<Longrightarrow> traversable g n \<Longrightarrow> \<not> V n \<Longrightarrow> p \<noteq> cur \<or> n \<in> N
        \<Longrightarrow> gc n \<le> gc p + 1"
    and "I ol"
proof -
  note a = assms[unfolded astar_inv_def]
  from a show "in_bounds s \<and> V s \<and> gc s = 0 \<and> e \<noteq> s \<and> \<not> V e" by (elim conjE) simp
  from a have "\<forall>p. gc p < INT_MAX \<and> p \<noteq> s \<longrightarrow>
        traversable g p \<and> V (par p) \<and> adjacent (par p) p \<and> gc p = gc (par p) + 1" by (elim conjE)
  then show "\<And>p. gc p < INT_MAX \<Longrightarrow> p \<noteq> s \<Longrightarrow>
        traversable g p \<and> V (par p) \<and> adjacent (par p) p \<and> gc p = gc (par p) + 1" by blast
  from a have "\<forall>p. V p \<longrightarrow> in_bounds p \<and> 0 \<le> gc p \<and> gc p + 1 \<le> int (card {q. V q})"
    by (elim conjE)
  then show "\<And>p. V p \<Longrightarrow> in_bounds p \<and> 0 \<le> gc p \<and> gc p + 1 \<le> int (card {q. V q})" by blast
  from a have "\<forall>p r. V p \<and> is_route g s p r \<longrightarrow> gc p \<le> int (length r)" by (elim conjE)
  then show "\<And>p r. V p \<Longrightarrow> is_route g s p r \<Longrightarrow> gc p \<le> int (length r)" by blast
  from a have "\<forall>p. gc p < INT_MAX \<and> \<not> V p \<longrightarrow> (p, gc p + hcost e p) \<in> set ol" by (elim conjE)
  then show "\<And>p. gc p < INT_MAX \<Longrightarrow> \<not> V p \<Longrightarrow> (p, gc p + hcost e p) \<in> set ol" by blast
  from a have "\<forall>x\<in>set ol. gc (fst x) < INT_MAX \<and> gc (fst x) + hcost e (fst x) \<le> snd x"
    by (elim conjE)
  then show "\<And>x. x \<in> set ol \<Longrightarrow> gc (fst x) < INT_MAX \<and> gc (fst x) + hcost e (fst x) \<le> snd x"
    by blast
  from a have "\<forall>p n. V p \<and> adjacent p n \<and> traversable g n \<and> \<not> V n \<and> (p \<noteq> cur \<or> n \<in> N)
        \<longrightarrow> gc n \<le> gc p + 1" by (elim conjE)
  then show "\<And>p n. V p \<Longrightarrow> adjacent p n \<Longrightarrow> traversable g n \<Longrightarrow> \<not> V n \<Longrightarrow> p \<noteq> cur \<or> n \<in> N
        \<Longrightarrow> gc n \<le> gc p + 1" by blast
  from a show "I ol" by (elim conjE)
qed

lemma astar_invI:
  assumes "in_bounds s \<and> V s \<and> gc s = 0 \<and> e \<noteq> s \<and> \<not> V e"
    and "\<And>p. gc p < INT_MAX \<Longrightarrow> p \<noteq> s \<Longrightarrow>
        traversable g p \<and> V (par p) \<and> adjacent (par p) p \<and> gc p = gc (par p) + 1"
    and "\<And>p. V p \<Longrightarrow> in_bounds p \<and> 0 \<le> gc p \<and> gc p + 1 \<le> int (card {q. V q})"
    and "\<And>p r. V p \<Longrightarrow> is_route g s p r \<Longrightarrow> gc p \<le> int (length r)"
    and "\<And>p. gc p < INT_MAX \<Longrightarrow> \<not> V p \<Longrightarrow> (p, gc p + hcost e p) \<in> set ol"
    and "\<And>x. x \<in> set ol \<Longrightarrow> gc (fst x) < INT_MAX \<and> gc (fst x) + hcost e (fst x) \<le> snd x"
    and "\<And>p n. V p \<Longrightarrow> adjacent p n \<Longrightarrow> traversable g n \<Longrightarrow> \<not> V n \<Longrightarrow> p \<noteq> cur \<or> n \<in> N
        \<Longrightarrow> gc n \<le> gc p + 1"
    and "I ol"
  shows "astar_inv I g s e cur N V par gc ol"
  unfolding astar_inv_def
proof (intro conjI allI impI ballI)
  show "in_bounds s" "V s" "gc s = 0" "e \<noteq> s" "\<not> V e" using assms(1) by simp_all
  show "I ol" by fact
next
  fix p assume "gc p < INT_MAX \<and> p \<noteq> s"
  with assms(2)[of p] show "traversable g p" "V (par p)" "adjacent (par p) p" "gc p = gc (par p) + 1"
    by simp_all
next
  fix p assume "V p"
  with assms(3)[of p] show "in_bounds p" "0 \<le> gc p" "gc p + 1 \<le> int (card {q. V q})" by simp_all
next
  fix p r assume "V p \<and> is_route g s p r"
  with assms(4)[of p r] show "gc p \<le> int (length r)" by simp
next
  fix p assume "gc p < INT_MAX \<and> \<not> V p"
  with assms(5)[of p] show "(p, gc p + hcost e p) \<in> set ol" by simp
next
  fix x assume "x \<in> set ol"
  with assms(6)[of x] show "gc (fst x) < INT_MAX" "gc (fst x) + hcost e (fst x) \<le> snd x" by simp_all
next
  fix p n assume "V p \<and> adjacent p n \<and> traversable g n \<and> \<not> V n \<and> (p \<noteq> cur \<or> n \<in> N)"
  with assms(7)[of p n] show "gc n \<le> gc p + 1" by blast
qed

lemma astar_visit_target:
  "astar_visit push g e cur (V, par, gc, ol) d =
     (if traversable g (target cur d) \<and> \<not> V (target cur d) \<and> gc cur + 1 < gc (target cur d)
      then (V, par(target cur d := cur), gc(target cur d := gc cur + 1),
            push (target cur d, gc cur + 1 + hcost e (target cur d)) ol)
      else (V, par, gc, ol))"
  by (simp add: astar_visit_def target_def Let_def traversable_valid hcost_def)

lemma INT_MAX_gt: "300 < INT_MAX"
  by (simp add: INT_MAX_def)

lemma astar_inv_visit:
  assumes ok: "pq_ok I push pop"
    and inv: "astar_inv I g s e cur N V par gc ol"
    and vc: "V cur" and dir: "dir \<in> set dirs"
    and step: "astar_visit push g e cur (V, par, gc, ol) dir = (V', par', gc', ol')"
  shows "V' = V \<and> astar_inv I g s e cur (insert (target cur dir) N) V par' gc' ol'"
proof -
  define n where "n = target cur dir"
  have adj: "adjacent cur n"
    using dir by (simp add: adjacent_target n_def)
  note D = astar_invD[OF inv]
  have inbV: "\<forall>p. V p \<longrightarrow> in_bounds p" using D(3) by blast
  show ?thesis
  proof (cases "traversable g n \<and> \<not> V n \<and> gc cur + 1 < gc n")
    case False
    with step have eq: "V' = V" "par' = par" "gc' = gc" "ol' = ol"
      by (auto simp: astar_visit_target n_def split: if_splits)
    have "astar_inv I g s e cur (insert n N) V par gc ol"
    proof (rule astar_invI)
      fix p m
      assume a: "V p" "adjacent p m" "traversable g m" "\<not> V m" "p \<noteq> cur \<or> m \<in> insert n N"
      show "gc m \<le> gc p + 1"
      proof (cases "p = cur \<and> m = n")
        case True
        with a False show ?thesis by auto
      next
        case False
        with a have "p \<noteq> cur \<or> m \<in> N" by auto
        with D(7)[OF a(1-4)] show ?thesis .
      qed
    qed (fact D(1) D(2) D(3) D(4) D(5) D(6) D(8))+
    with eq show ?thesis by (simp add: n_def)
  next
    case True
    then have n: "traversable g n" "\<not> V n" "gc cur + 1 < gc n" by simp_all
    from step True have eq: "V' = V" "par' = par(n := cur)" "gc' = gc(n := gc cur + 1)"
      "ol' = push (n, gc cur + 1 + hcost e n) ol"
      by (simp_all add: astar_visit_target n_def)
    from vc n(2) have ncur: "n \<noteq> cur" by auto
    from D(1) n(2) have ns: "n \<noteq> s" by auto
    have gold: "gc' p = gc p" if "V p" for p
      using that n(2) by (auto simp: eq)
    have gle: "gc' p \<le> gc p" for p
      using n(3) by (auto simp: eq)
    from D(3)[OF vc] card_visited_le(2)[OF inbV] INT_MAX_gt
    have small: "gc cur + 1 < INT_MAX" "0 \<le> gc cur" by simp_all
    have set_ol': "set ol' = insert (n, gc cur + 1 + hcost e n) (set ol)"
      unfolding eq by (rule pq_push_set[OF ok D(8)])
    have "astar_inv I g s e cur (insert n N) V par' gc' ol'"
    proof (rule astar_invI)
      show "in_bounds s \<and> V s \<and> gc' s = 0 \<and> e \<noteq> s \<and> \<not> V e"
        using D(1) ns by (simp add: eq)
    next
      fix p assume p: "gc' p < INT_MAX" "p \<noteq> s"
      show "traversable g p \<and> V (par' p) \<and> adjacent (par' p) p \<and> gc' p = gc' (par' p) + 1"
      proof (cases "p = n")
        case True
        then show ?thesis using n(1) vc adj ncur by (simp add: eq)
      next
        case False
        with p have "gc p < INT_MAX" by (simp add: eq)
        from D(2)[OF this p(2)] have *: "traversable g p" "V (par p)" "adjacent (par p) p"
          "gc p = gc (par p) + 1" by simp_all
        from *(2) n(2) have "par p \<noteq> n" by auto
        with * False show ?thesis by (simp add: eq)
      qed
    next
      fix p assume "V p"
      with D(3)[OF this] gold[OF this]
      show "in_bounds p \<and> 0 \<le> gc' p \<and> gc' p + 1 \<le> int (card {q. V q})" by simp
    next
      fix p r assume "V p" "is_route g s p r"
      with D(4)[OF this] gold show "gc' p \<le> int (length r)" by simp
    next
      fix p assume p: "gc' p < INT_MAX" "\<not> V p"
      show "(p, gc' p + hcost e p) \<in> set ol'"
      proof (cases "p = n")
        case True
        then show ?thesis by (simp add: set_ol' eq(3))
      next
        case False
        with p have "gc p < INT_MAX" by (simp add: eq)
        from D(5)[OF this p(2)] False show ?thesis by (simp add: set_ol' eq(3))
      qed
    next
      fix x assume "x \<in> set ol'"
      then consider "x = (n, gc cur + 1 + hcost e n)" | "x \<in> set ol"
        by (auto simp: set_ol')
      then show "gc' (fst x) < INT_MAX \<and> gc' (fst x) + hcost e (fst x) \<le> snd x"
      proof cases
        case 1
        then show ?thesis using small by (simp add: eq)
      next
        case 2
        from D(6)[OF this] gle[of "fst x"] show ?thesis by linarith
      qed
    next
      fix p m
      assume a: "V p" "adjacent p m" "traversable g m" "\<not> V m" "p \<noteq> cur \<or> m \<in> insert n N"
      show "gc' m \<le> gc' p + 1"
      proof (cases "m = n")
        case True
        show ?thesis
        proof (cases "p = cur")
          case True
          with \<open>m = n\<close> ncur show ?thesis by (simp add: eq)
        next
          case False
          with D(7)[OF a(1-4)] have "gc m \<le> gc p + 1" by simp
          with gle[of m] gold[OF a(1)] show ?thesis by simp
        qed
      next
        case False
        with a(5) have "p \<noteq> cur \<or> m \<in> N" by auto
        from D(7)[OF a(1-4) this] gle[of m] gold[OF a(1)] show ?thesis by simp
      qed
    next
      show "I ol'" unfolding eq by (rule pq_okD(2)[OF ok D(8)])
    qed
    with eq(1) show ?thesis by (simp add: n_def)
  qed
qed

lemma astar_inv_foldl:
  assumes "pq_ok I push pop"
    and "astar_inv I g s e cur N V par gc ol"
    and "V cur" and "set ds \<subseteq> set dirs"
    and "foldl (astar_visit push g e cur) (V, par, gc, ol) ds = (V', par', gc', ol')"
  shows "V' = V \<and> astar_inv I g s e cur (N \<union> target cur ` set ds) V par' gc' ol'"
  using assms(2,4,5)
proof (induction ds arbitrary: N par gc ol)
  case Nil
  then show ?case by simp
next
  case (Cons dir ds)
  obtain V1 par1 gc1 ol1 where
    s1: "astar_visit push g e cur (V, par, gc, ol) dir = (V1, par1, gc1, ol1)"
    by (cases "astar_visit push g e cur (V, par, gc, ol) dir") auto
  from Cons.prems(2) have dir: "dir \<in> set dirs" and ds: "set ds \<subseteq> set dirs" by auto
  note both = astar_inv_visit[OF assms(1) Cons.prems(1) assms(3) dir s1]
  from both have v1: "V1 = V" by (rule conjunct1)
  from both have i1: "astar_inv I g s e cur (insert (target cur dir) N) V par1 gc1 ol1"
    by (rule conjunct2)
  from Cons.prems(3) s1 have "foldl (astar_visit push g e cur) (V, par1, gc1, ol1) ds = (V', par', gc', ol')"
    by (simp add: v1)
  from Cons.IH[OF i1 ds this] show ?case by simp
qed

lemma astar_inv_full:
  assumes "astar_inv I g s e cur {n. adjacent cur n} V par gc ol"
  shows "astar_inv I g s e c UNIV V par gc ol"
proof -
  note D = astar_invD[OF assms]
  show ?thesis
  proof (rule astar_invI)
    fix p n
    assume a: "V p" "adjacent p n" "traversable g n" "\<not> V n" "p \<noteq> c \<or> n \<in> (UNIV :: Point set)"
    then have "p \<noteq> cur \<or> n \<in> {n. adjacent cur n}" by auto
    from D(7)[OF a(1-4) this] show "gc n \<le> gc p + 1" .
  qed (fact D(1) D(2) D(3) D(4) D(5) D(6) D(8))+
qed

lemma astar_pop_optimal:
  assumes ok: "pq_ok I push pop"
    and inv: "astar_inv I g s e c UNIV V par gc ol"
    and ne: "ol \<noteq> []" and nv: "\<not> V (fst (hd ol))"
    and rt: "is_route g s (fst (hd ol)) r"
  shows "gc (fst (hd ol)) \<le> int (length r)"
proof -
  let ?t = "fst (hd ol)"
  note D = astar_invD[OF inv]
  have inbV: "\<forall>p. V p \<longrightarrow> in_bounds p" using D(3) by blast
  from rt have rf: "route_from g s r" and lst: "last (s # r) = ?t"
    by (simp_all add: is_route_def)
  from D(1) have vs: "V s" by simp
  from nv lst have "\<not> V (last (s # r))" by simp
  from route_split[OF rf vs this] obtain r1 n r2 where
    sp: "r = r1 @ n # r2" "route_from g s r1" "V (last (s # r1))" "\<not> V n"
        "adjacent (last (s # r1)) n" "traversable g n" "route_from g n r2"
    by blast
  let ?m = "last (s # r1)"
  have "is_route g s ?m r1" using sp(2) by (simp add: is_route_def)
  from D(4)[OF sp(3) this] have gm: "gc ?m \<le> int (length r1)" .
  from D(7)[OF sp(3) sp(5) sp(6) sp(4)] have gn: "gc n \<le> gc ?m + 1" by simp
  from D(3)[OF sp(3)] card_visited_le(2)[OF inbV] INT_MAX_gt gn have "gc n < INT_MAX" by simp
  from D(5)[OF this sp(4)] have ent: "(n, gc n + hcost e n) \<in> set ol" .
  from pq_okD(6)[OF ok D(8) ne ent] have f1: "snd (hd ol) \<le> gc n + hcost e n" by simp
  from D(6)[of "hd ol"] ne have f2: "gc ?t + hcost e ?t \<le> snd (hd ol)" by simp
  have "last (n # r2) = ?t" using lst sp(1) by simp
  with hcost_route[OF sp(7), of e] have f3: "hcost e n \<le> hcost e ?t + int (length r2)" by simp
  have "int (length r) = int (length r1) + 1 + int (length r2)" using sp(1) by simp
  with gm gn f1 f2 f3 show ?thesis by linarith
qed

lemma astar_inv_pop:
  assumes ok: "pq_ok I push pop"
    and inv: "astar_inv I g s e c UNIV V par gc ol"
    and ne: "ol \<noteq> []" and cur: "cur = fst (hd ol)" and ce: "cur \<noteq> e"
  shows "astar_inv I g s e cur {} (V(cur := True)) par gc (pop ol)"
proof -
  note D = astar_invD[OF inv]
  let ?V = "V(cur := True)"
  have inbV: "\<forall>p. V p \<longrightarrow> in_bounds p" using D(3) by blast
  have hd_in: "hd ol \<in> set ol" using ne by simp
  from D(6)[OF hd_in] have dcur: "gc cur < INT_MAX" by (simp add: cur)
  have cur_props: "in_bounds cur \<and> 0 \<le> gc cur \<and> gc cur + 1 \<le> int (card {q. ?V q})"
  proof (cases "V cur")
    case True
    then have "?V = V" by (intro fun_upd_idem) simp
    with D(3)[OF True] show ?thesis by simp
  next
    case False
    with D(1) have cs: "cur \<noteq> s" by auto
    from D(2)[OF dcur cs] have *: "traversable g cur" "V (par cur)" "gc cur = gc (par cur) + 1"
      by simp_all
    have "{q. ?V q} = insert cur {q. V q}" by auto
    moreover have "cur \<notin> {q. V q}" using False by simp
    ultimately have "card {q. ?V q} = Suc (card {q. V q})"
      using card_visited_le(1)[OF inbV] by simp
    with D(3)[OF *(2)] *(1,3) show ?thesis by (simp add: traversable_def)
  qed
  have card_mono': "int (card {q. V q}) \<le> int (card {q. ?V q})"
  proof (cases "V cur")
    case True
    then have "?V = V" by (intro fun_upd_idem) simp
    then show ?thesis by simp
  next
    case False
    have "{q. ?V q} = insert cur {q. V q}" by auto
    then show ?thesis using card_visited_le(1)[OF inbV] False by simp
  qed
  show ?thesis
  proof (rule astar_invI)
    show "in_bounds s \<and> ?V s \<and> gc s = 0 \<and> e \<noteq> s \<and> \<not> ?V e"
      using D(1) ce by simp
  next
    fix p assume "gc p < INT_MAX" "p \<noteq> s"
    from D(2)[OF this]
    show "traversable g p \<and> ?V (par p) \<and> adjacent (par p) p \<and> gc p = gc (par p) + 1" by simp
  next
    fix p assume p: "?V p"
    show "in_bounds p \<and> 0 \<le> gc p \<and> gc p + 1 \<le> int (card {q. ?V q})"
    proof (cases "p = cur")
      case True
      with cur_props show ?thesis by simp
    next
      case False
      with p have "V p" by simp
      from D(3)[OF this] card_mono' show ?thesis by simp
    qed
  next
    fix p r assume p: "?V p" "is_route g s p r"
    show "gc p \<le> int (length r)"
    proof (cases "V p")
      case True
      from D(4)[OF this p(2)] show ?thesis .
    next
      case False
      with p(1) have pc: "p = fst (hd ol)" by (simp add: cur split: if_splits)
      from astar_pop_optimal[OF ok inv ne] False p(2) show ?thesis unfolding pc by blast
    qed
  next
    fix p assume p: "gc p < INT_MAX" "\<not> ?V p"
    then have pc: "p \<noteq> cur" and nv: "\<not> V p" by (auto split: if_splits)
    from D(5)[OF p(1) nv] have "(p, gc p + hcost e p) \<in> set ol" .
    moreover have "(p, gc p + hcost e p) \<noteq> hd ol" using pc cur by (metis fst_conv)
    ultimately show "(p, gc p + hcost e p) \<in> set (pop ol)"
      using pq_pop_set(2)[OF ok D(8) ne] by auto
  next
    fix x assume "x \<in> set (pop ol)"
    with pq_pop_set(1)[OF ok D(8) ne] have "x \<in> set ol" by auto
    from D(6)[OF this] show "gc (fst x) < INT_MAX \<and> gc (fst x) + hcost e (fst x) \<le> snd x" .
  next
    fix p n
    assume a: "?V p" "adjacent p n" "traversable g n" "\<not> ?V n" "p \<noteq> cur \<or> n \<in> ({} :: Point set)"
    then have "V p" "\<not> V n" by (auto split: if_splits)
    from D(7)[OF this(1) a(2,3) this(2)] show "gc n \<le> gc p + 1" by simp
  next
    show "I (pop ol)" by (rule pq_okD(4)[OF ok D(8) ne])
  qed
qed

lemma astar_stale_visit:
  assumes "\<forall>n. adjacent cur n \<and> traversable g n \<and> \<not> V n \<longrightarrow> gc n \<le> gc cur + 1"
    and "set ds \<subseteq> set dirs"
  shows "foldl (astar_visit push g e cur) (V, par, gc, ol) ds = (V, par, gc, ol)"
  using assms(2)
proof (induction ds)
  case Nil
  then show ?case by simp
next
  case (Cons dir ds)
  then have "adjacent cur (target cur dir)" by (simp add: adjacent_target)
  with assms(1) have "astar_visit push g e cur (V, par, gc, ol) dir = (V, par, gc, ol)"
    by (auto simp: astar_visit_target)
  with Cons show ?case by simp
qed

lemma astar_loop_correct:
  assumes ok: "pq_ok I push pop"
  shows "astar_inv I g s e c UNIV V par gc ol \<Longrightarrow>
     \<exists>p. astar_loop push pop g s e (V, par, gc, ol) = Some (Inr p) \<and> search_post g s e p"
proof (induction "(V, ol)" arbitrary: V par gc ol c
    rule: wf_induct_rule[OF wf_measures[of "[\<lambda>(V, ol). card {x. in_bounds x \<and> \<not> V x},
                                             \<lambda>(V, ol). length ol]"]])
  case (1 V ol par gc c)
  note inv = "1.prems"
  note D = astar_invD[OF inv]
  have inbV: "\<forall>p. V p \<longrightarrow> in_bounds p" using D(3) by blast
  have small: "gc p + 1 < INT_MAX" if "V p" for p
    using D(3)[OF that] card_visited_le(2)[OF inbV] INT_MAX_gt by simp
  show ?case
  proof (cases "ol = []")
    case True
    have clo: "\<forall>p n. V p \<and> adjacent p n \<and> traversable g n \<longrightarrow> V n"
    proof (intro allI impI)
      fix p n assume a: "V p \<and> adjacent p n \<and> traversable g n"
      show "V n"
      proof (rule ccontr)
        assume nv: "\<not> V n"
        with D(7)[of p n] a have "gc n \<le> gc p + 1" by simp
        with small[of p] a have "gc n < INT_MAX" by simp
        from D(5)[OF this nv] True show False by simp
      qed
    qed
    from D(1) have vs: "V s" and ne: "\<not> V e" by simp_all
    have "\<not> is_route g s e r" for r
      using closed_route[OF clo vs, of r] ne by (auto simp: is_route_def)
    then have "search_post g s e []"
      by (simp add: search_post_def)
    moreover have "astar_loop push pop g s e (V, par, gc, ol) = Some (Inr [])"
      using True by (subst astar_loop.simps) simp
    ultimately show ?thesis by blast
  next
    case False
    define cur where "cur = fst (hd ol)"
    from False have hd_in: "hd ol \<in> set ol" by simp
    from D(6)[OF hd_in] have dcur: "gc cur < INT_MAX" by (simp add: cur_def)
    show ?thesis
    proof (cases "cur = e")
      case True
      have tree: "parent_tree g s par (\<lambda>p. gc p < INT_MAX) (\<lambda>p. nat (gc p))"
        unfolding parent_tree_def
      proof (intro conjI allI impI)
        show "gc s < INT_MAX" using D(1) by (simp add: INT_MAX_def)
        show "nat (gc s) = 0" using D(1) by simp
      next
        fix p assume p: "gc p < INT_MAX \<and> p \<noteq> s"
        then have *: "traversable g p" "V (par p)" "adjacent (par p) p" "gc p = gc (par p) + 1"
          using D(2)[of p] by simp_all
        show "traversable g p" "adjacent (par p) p" by fact+
        show "gc (par p) < INT_MAX" using small[OF *(2)] by simp
        show "nat (gc p) = nat (gc (par p)) + 1" using *(4) D(3)[OF *(2)] by (simp add: nat_add_distrib)
      qed
      from dcur True have te: "gc e < INT_MAX" by simp
      from reconstruct_tree[OF tree te, of "[]"] obtain r where
        r: "reconstruct par s e [] = Some (Inr r)" "is_route g s e r" "length r = nat (gc e)"
           "s \<notin> set r"
        by auto
      have "length r \<le> length r'" if "is_route g s e r'" for r'
      proof -
        from D(1) True have "\<not> V (fst (hd ol))" by (simp add: cur_def)
        from astar_pop_optimal[OF ok inv False this] that True
        have "gc e \<le> int (length r')" by (simp add: cur_def)
        with r(3) show ?thesis by simp
      qed
      with r(2,4) have "search_post g s e r"
        unfolding search_post_def by blast
      moreover have "astar_loop push pop g s e (V, par, gc, ol) = Some (Inr r)"
        using False True r(1) by (subst astar_loop.simps) (simp add: cur_def)
      ultimately show ?thesis by blast
    next
      case ce: False
      have inb: "in_bounds cur"
      proof (cases "cur = s")
        case True
        with D(1) show ?thesis by simp
      next
        case False
        from D(2)[OF dcur False] show ?thesis by (simp add: traversable_def)
      qed
      let ?V = "V(cur := True)"
      obtain V1 par1 gc1 ol1 where
        f: "foldl (astar_visit push g e cur) (?V, par, gc, pop ol) dirs = (V1, par1, gc1, ol1)"
        by (cases "foldl (astar_visit push g e cur) (?V, par, gc, pop ol) dirs") auto
      have unf: "astar_loop push pop g s e (V, par, gc, ol)
                 = astar_loop push pop g s e (V1, par1, gc1, ol1)"
        using False ce inb f by (subst astar_loop.simps) (simp add: cur_def)
      from astar_inv_pop[OF ok inv False cur_def ce]
      have b: "astar_inv I g s e cur {} ?V par gc (pop ol)" .
      have "?V cur" by simp
      from astar_inv_foldl[OF ok b this subset_refl f]
      have v1: "V1 = ?V"
        and i1: "astar_inv I g s e cur ({} \<union> target cur ` set dirs) ?V par1 gc1 ol1"
        by blast+
      from i1 have "astar_inv I g s e cur {n. adjacent cur n} V1 par1 gc1 ol1"
        by (simp add: adjacent_set v1)
      then have full: "astar_inv I g s e cur UNIV V1 par1 gc1 ol1"
        by (rule astar_inv_full)
      have less: "((V1, ol1), (V, ol)) \<in> measures [\<lambda>(V, ol). card {x. in_bounds x \<and> \<not> V x},
                                             \<lambda>(V, ol). length ol]"
      proof (cases "V cur")
        case True
        then have same: "?V = V" by (intro fun_upd_idem) simp
        have "\<forall>n. adjacent cur n \<and> traversable g n \<and> \<not> V n \<longrightarrow> gc n \<le> gc cur + 1"
          using D(7)[OF True] by blast
        from astar_stale_visit[OF this subset_refl, of push e par "pop ol"] f same
        have "V1 = V" "ol1 = pop ol" by simp_all
        with pq_pop_length[OF ok D(8) False] show ?thesis by simp
      next
        case nv: False
        have "{x. in_bounds x \<and> \<not> V1 x} = {x. in_bounds x \<and> \<not> V x} - {cur}"
          by (auto simp: v1)
        moreover have "cur \<in> {x. in_bounds x \<and> \<not> V x}" using inb nv by simp
        ultimately have "card {x. in_bounds x \<and> \<not> V1 x} < card {x. in_bounds x \<and> \<not> V x}"
          using card_Diff1_less[OF finite_unvisited, of cur V] by simp
        then show ?thesis by simp
      qed
      from "1.hyps"[OF less full] unf show ?thesis by simp
    qed
  qed
qed

lemma search_post_same: "search_post g s s []"
  by (auto simp: search_post_def is_route_nil)

lemma findPathA_with_correct:
  assumes ok: "pq_ok I push pop" and inb: "in_bounds s"
  shows "\<exists>p. findPathA_with push pop g s e = Some (Inr p) \<and> search_post g s e p"
proof -
  let ?W = "\<lambda>_::Point. False"
  let ?par = "\<lambda>_::Point. Point (- 1) (- 1)"
  let ?gc = "(\<lambda>_. INT_MAX)(s := 0)"
  let ?ol = "push (s, 0) []"
  have "mset ?ol = {#(s, 0)#}"
    using pq_okD(3)[OF ok pq_okD(1)[OF ok], of "(s, 0)"] by simp
  then have ol: "?ol = [(s, 0)]"
    by simp
  have iol: "I [(s, 0)]"
    using pq_okD(2)[OF ok pq_okD(1)[OF ok], of "(s, 0)"] ol by simp
  have "add_mset (hd [(s, 0)]) (mset (pop [(s, 0)])) = mset [(s, 0)]"
    by (rule pq_okD(5)[OF ok iol]) simp
  then have pol: "pop [(s, 0)] = []" by simp
  have start: "findPathA_with push pop g s e
               = astar_loop push pop g s e (?W, ?par, ?gc, [(s, 0)])"
    using inb by (simp add: findPathA_with_def ol)
  show ?thesis
  proof (cases "s = e")
    case True
    have "astar_loop push pop g s e (?W, ?par, ?gc, [(s, 0)]) = Some (Inr [])"
      using True by (subst astar_loop.simps, subst reconstruct.simps) simp
    with start True search_post_same show ?thesis by auto
  next
    case False
    let ?V = "?W(s := True)"
    obtain V1 par1 gc1 ol1 where
      f: "foldl (astar_visit push g e s) (?V, ?par, ?gc, []) dirs = (V1, par1, gc1, ol1)"
      by (cases "foldl (astar_visit push g e s) (?V, ?par, ?gc, []) dirs") auto
    have "astar_loop push pop g s e (?W, ?par, ?gc, [(s, 0)])
          = astar_loop push pop g s e (V1, par1, gc1, ol1)"
      using inb False f by (subst astar_loop.simps) (simp add: pol)
    with start have unf: "findPathA_with push pop g s e
                          = astar_loop push pop g s e (V1, par1, gc1, ol1)"
      by simp
    have b: "astar_inv I g s e s {} ?V ?par ?gc []"
    proof (rule astar_invI)
      show "in_bounds s \<and> ?V s \<and> ?gc s = 0 \<and> e \<noteq> s \<and> \<not> ?V e"
        using inb False by simp
    next
      fix p assume "?V p"
      then have ps: "p = s" by (simp split: if_splits)
      have "{q. ?V q} = {s}" by auto
      with ps inb show "in_bounds p \<and> 0 \<le> ?gc p \<and> ?gc p + 1 \<le> int (card {q. ?V q})"
        by simp
    next
      show "I []" by (rule pq_okD(1)[OF ok])
    qed (auto split: if_splits)
    have "?V s" by simp
    from astar_inv_foldl[OF ok b this subset_refl f]
    have v1: "V1 = ?V"
      and i1: "astar_inv I g s e s ({} \<union> target s ` set dirs) ?V par1 gc1 ol1"
      by blast+
    from i1 have "astar_inv I g s e s {n. adjacent s n} V1 par1 gc1 ol1"
      by (simp add: adjacent_set v1)
    then have "astar_inv I g s e s UNIV V1 par1 gc1 ol1"
      by (rule astar_inv_full)
    from astar_loop_correct[OF ok this] unf show ?thesis by simp
  qed
qed

subsection \<open>The heap and the first-in first-out list as open sets\<close>

text \<open>The first-in first-out open set.\<close>

lemma fifo_push_mset: "mset (fifo_push x c) = add_mset x (mset c)"
  by (induction c) auto

lemma fifo_push_sorted: "sorted (map snd c) \<Longrightarrow> sorted (map snd (fifo_push x c))"
proof (induction c)
  case Nil
  then show ?case by simp
next
  case (Cons y ys)
  have "set (fifo_push x ys) = insert x (set ys)"
    using fifo_push_mset[of x ys] by (metis set_mset_add_mset_insert set_mset_mset)
  with Cons show ?case by auto
qed

lemma pq_ok_fifo: "pq_ok (\<lambda>c. sorted (map snd c)) fifo_push fifo_pop"
  unfolding pq_ok_def
proof (intro conjI allI impI)
  show "sorted (map snd ([] :: entry list))" by simp
next
  fix x :: entry and c :: "entry list" assume "sorted (map snd c)"
  then show "sorted (map snd (fifo_push x c))" by (rule fifo_push_sorted)
  show "mset (fifo_push x c) = add_mset x (mset c)" by (rule fifo_push_mset)
next
  fix c :: "entry list" assume c: "sorted (map snd c) \<and> c \<noteq> []"
  then obtain y ys where eq: "c = y # ys" by (cases c) auto
  with c show "sorted (map snd (fifo_pop c))" by (simp add: fifo_pop_def)
  from eq show "add_mset (hd c) (mset (fifo_pop c)) = mset c" by (simp add: fifo_pop_def)
  from eq c show "\<forall>y\<in>set c. snd (hd c) \<le> snd y" by auto
qed

lemma hole_heapD1:
  "hole_heap a h \<Longrightarrow> i < length a \<Longrightarrow> 0 < i \<Longrightarrow> i \<noteq> h \<Longrightarrow> (i - 1) div 2 \<noteq> h
     \<Longrightarrow> snd (a ! ((i - 1) div 2)) \<le> snd (a ! i)"
  by (simp add: hole_heap_def)

lemma hole_heapD2:
  "hole_heap a h \<Longrightarrow> i < length a \<Longrightarrow> 0 < i \<Longrightarrow> (i - 1) div 2 = h \<Longrightarrow> 0 < h
     \<Longrightarrow> snd (a ! ((h - 1) div 2)) \<le> snd (a ! i)"
  by (simp add: hole_heap_def)

lemma is_heap_hole: "is_heap a \<Longrightarrow> hole_heap a h"
proof -
  assume a: "is_heap a"
  have le: "snd (a ! ((i - 1) div 2)) \<le> snd (a ! i)" if "i < length a" "0 < i" for i
    using a that by (simp add: is_heap_def)
  show ?thesis
    unfolding hole_heap_def
  proof (intro conjI allI impI)
    fix i assume "i < length a" "0 < i \<and> i \<noteq> h \<and> (i - 1) div 2 \<noteq> h"
    then show "snd (a ! ((i - 1) div 2)) \<le> snd (a ! i)" using le by simp
  next
    fix i assume i: "i < length a" "0 < i \<and> (i - 1) div 2 = h \<and> 0 < h"
    then have "h < length a" by auto
    with i le[of h] le[of i] show "snd (a ! ((h - 1) div 2)) \<le> snd (a ! i)" by auto
  qed
qed

lemma mset_move_hole:
  assumes "h < length a" "c < length a" "h \<noteq> c"
  shows "mset (a[h := a ! c, c := v]) = mset (a[h := v])"
proof -
  let ?b = "a[h := v]"
  have "mset (?b[h := ?b ! c, c := ?b ! h]) = mset ?b"
    by (rule mset_swap) (use assms in simp_all)
  moreover have "?b[h := ?b ! c, c := ?b ! h] = a[h := a ! c, c := v]"
    using assms by (simp add: list_update_swap)
  ultimately show ?thesis by simp
qed

lemma sift_up:
  assumes "h < length a" and "hole_heap a h"
    and "\<forall>i<length a. 0 < i \<and> (i - 1) div 2 = h \<longrightarrow> snd v \<le> snd (a ! i)"
  shows "is_heap (push_heap_aux a h 0 v) \<and> mset (push_heap_aux a h 0 v) = mset (a[h := v])"
  using assms
proof (induction h arbitrary: a rule: less_induct)
  case (less h)
  let ?p = "(h - 1) div 2"
  note hh = less.prems(2)
  show ?case
  proof (cases "0 < h \<and> comparator (a ! ?p) v")
    case True
    then have h0: "0 < h" and gt: "snd v < snd (a ! ?p)" by (simp_all add: comparator_def)
    then have ph: "?p < h" by auto
    with less.prems(1) have pl: "?p < length a" by simp
    let ?a = "a[h := a ! ?p]"
    have len: "length ?a = length a" by simp
    have hole': "hole_heap ?a ?p"
      unfolding hole_heap_def
    proof (intro conjI allI impI)
      fix i assume i: "i < length ?a" "0 < i \<and> i \<noteq> ?p \<and> (i - 1) div 2 \<noteq> ?p"
      then have ih: "i \<noteq> h" by auto
      show "snd (?a ! ((i - 1) div 2)) \<le> snd (?a ! i)"
      proof (cases "(i - 1) div 2 = h")
        case True
        with hole_heapD2[OF hh, of i] i h0 have "snd (a ! ?p) \<le> snd (a ! i)" by simp
        with True ih less.prems(1) show ?thesis by simp
      next
        case False
        with hole_heapD1[OF hh, of i] i ih show ?thesis by simp
      qed
    next
      fix i assume i: "i < length ?a" "0 < i \<and> (i - 1) div 2 = ?p \<and> 0 < ?p"
      have pp: "snd (a ! ((?p - 1) div 2)) \<le> snd (a ! ?p)"
        using hole_heapD1[OF hh, of ?p] pl i ph by auto
      have pne: "(?p - 1) div 2 \<noteq> h" using ph by auto
      show "snd (?a ! ((?p - 1) div 2)) \<le> snd (?a ! i)"
      proof (cases "i = h")
        case True
        with pp pne less.prems(1) show ?thesis by simp
      next
        case False
        with hole_heapD1[OF hh, of i] i ph have "snd (a ! ?p) \<le> snd (a ! i)" by auto
        with pp pne False show ?thesis by simp
      qed
    qed
    have kids: "\<forall>i<length ?a. 0 < i \<and> (i - 1) div 2 = ?p \<longrightarrow> snd v \<le> snd (?a ! i)"
    proof (intro allI impI)
      fix i assume i: "i < length ?a" "0 < i \<and> (i - 1) div 2 = ?p"
      show "snd v \<le> snd (?a ! i)"
      proof (cases "i = h")
        case True
        with gt less.prems(1) show ?thesis by simp
      next
        case False
        with hole_heapD1[OF hh, of i] i ph have "snd (a ! ?p) \<le> snd (a ! i)" by auto
        with gt False show ?thesis by simp
      qed
    qed
    from less.IH[OF ph _ hole' kids] pl
    have ih: "is_heap (push_heap_aux ?a ?p 0 v)"
      "mset (push_heap_aux ?a ?p 0 v) = mset (?a[?p := v])" by simp_all
    have unf: "push_heap_aux a h 0 v = push_heap_aux ?a ?p 0 v"
      using True by (subst push_heap_aux.simps) (simp add: Let_def)
    have "mset (?a[?p := v]) = mset (a[h := v])"
      using mset_move_hole[of h a ?p v] less.prems(1) pl ph by simp
    with ih unf show ?thesis by simp
  next
    case False
    have unf: "push_heap_aux a h 0 v = a[h := v]"
      using False by (subst push_heap_aux.simps) (auto simp: Let_def)
    have "is_heap (a[h := v])"
      unfolding is_heap_def
    proof (intro allI impI)
      fix i assume i: "i < length (a[h := v])" "0 < i"
      show "snd (a[h := v] ! ((i - 1) div 2)) \<le> snd (a[h := v] ! i)"
      proof (cases "i = h")
        case True
        with i False have "snd (a ! ?p) \<le> snd v" by (auto simp: comparator_def)
        moreover have "?p \<noteq> h" using True i by auto
        ultimately show ?thesis using True less.prems(1) by simp
      next
        case ih: False
        show ?thesis
        proof (cases "(i - 1) div 2 = h")
          case True
          with less.prems(3) i have "snd v \<le> snd (a ! i)" by simp
          with True ih less.prems(1) show ?thesis by simp
        next
          case False
          with hole_heapD1[OF hh, of i] i ih show ?thesis by simp
        qed
      qed
    qed
    with unf show ?thesis by simp
  qed
qed

lemma adjust_down_props:
  assumes "adjust_down a h sc len = (r, h', sc')"
    and "sc = h" and "len = length a" and "h < len" and "hole_heap a h"
  shows "hole_heap r h' \<and> h' < len \<and> sc' = h' \<and> \<not> h' < (len - 1) div 2 \<and> length r = len
         \<and> (\<forall>x. mset (r[h' := x]) = mset (a[h := x]))"
  using assms
proof (induction a h sc len rule: adjust_down.induct)
  case (1 a h sc len)
  note hh = "1.prems"(5)
  show ?case
  proof (cases "sc < (len - 1) div 2")
    case False
    with "1.prems"(1) have "r = a" "h' = h" "sc' = sc" by (simp_all add: adjust_down.simps)
    with False "1.prems" show ?thesis by simp
  next
    case True
    define rc where "rc = 2 * (sc + 1)"
    define c where "c = (if comparator (a ! rc) (a ! (rc - 1)) then rc - 1 else rc)"
    let ?a = "a[h := a ! c]"
    from True have rcl: "rc < len" by (simp add: rc_def)
    have crange: "c = 2 * h + 1 \<or> c = 2 * h + 2"
      by (auto simp: c_def rc_def "1.prems"(2))
    then have cl: "c < len" and ch: "h < c" and cp: "(c - 1) div 2 = h" and c0: "0 < c"
      using rcl by (auto simp: rc_def "1.prems"(2))
    have cmin: "snd (a ! c) \<le> snd (a ! i)" if "i = 2 * h + 1 \<or> i = 2 * h + 2" for i
      using that by (auto simp: c_def rc_def "1.prems"(2) comparator_def)
    have unf: "adjust_down a h sc len = adjust_down ?a c c len"
      using True by (subst adjust_down.simps) (simp add: Let_def c_def rc_def)
    have hole': "hole_heap ?a c"
      unfolding hole_heap_def
    proof (intro conjI allI impI)
      fix i assume i: "i < length ?a" "0 < i \<and> i \<noteq> c \<and> (i - 1) div 2 \<noteq> c"
      show "snd (?a ! ((i - 1) div 2)) \<le> snd (?a ! i)"
      proof (cases "i = h")
        case True
        then have ne: "(i - 1) div 2 \<noteq> h" using i by auto
        from hole_heapD2[OF hh, of c] cl cp c0 True i "1.prems"(3)
        have "snd (a ! ((h - 1) div 2)) \<le> snd (a ! c)" by simp
        with True ne "1.prems"(3,4) show ?thesis by simp
      next
        case ih: False
        show ?thesis
        proof (cases "(i - 1) div 2 = h")
          case True
          with i have "i = 2 * h + 1 \<or> i = 2 * h + 2" by auto
          from cmin[OF this] True ih "1.prems"(3,4) show ?thesis by simp
        next
          case False
          with hole_heapD1[OF hh, of i] i ih show ?thesis by simp
        qed
      qed
    next
      fix i assume i: "i < length ?a" "0 < i \<and> (i - 1) div 2 = c \<and> 0 < c"
      then have "i \<noteq> h" "(i - 1) div 2 \<noteq> h" using ch by auto
      with hole_heapD1[OF hh, of i] i have "snd (a ! c) \<le> snd (a ! i)" by simp
      with \<open>i \<noteq> h\<close> cp "1.prems"(3,4) show "snd (?a ! ((c - 1) div 2)) \<le> snd (?a ! i)" by simp
    qed
    from "1.prems"(1) unf have rec: "adjust_down ?a c c len = (r, h', sc')" by simp
    have "hole_heap r h' \<and> h' < len \<and> sc' = h' \<and> \<not> h' < (len - 1) div 2 \<and> length r = len
         \<and> (\<forall>x. mset (r[h' := x]) = mset (?a[c := x]))"
      using "1.IH"[OF True refl refl, folded rc_def, folded c_def, OF rec refl _ cl hole']
        "1.prems"(3) by simp
    moreover have "mset (?a[c := x]) = mset (a[h := x])" for x
      using mset_move_hole[of h a c x] "1.prems"(3,4) cl ch by simp
    ultimately show ?thesis by simp
  qed
qed

lemma is_heap_root_min:
  assumes "is_heap c" and "i < length c"
  shows "snd (c ! 0) \<le> snd (c ! i)"
  using assms(2)
proof (induction i rule: less_induct)
  case (less i)
  show ?case
  proof (cases "i = 0")
    case True
    then show ?thesis by simp
  next
    case False
    then have p: "(i - 1) div 2 < i" by auto
    with less.prems have "(i - 1) div 2 < length c" by simp
    from less.IH[OF p this] have "snd (c ! 0) \<le> snd (c ! ((i - 1) div 2))" .
    moreover from assms(1) less.prems False have "snd (c ! ((i - 1) div 2)) \<le> snd (c ! i)"
      by (simp add: is_heap_def)
    ultimately show ?thesis by simp
  qed
qed

lemma is_heap_hd_min:
  assumes "is_heap c" and "y \<in> set c"
  shows "snd (hd c) \<le> snd y"
proof -
  from assms(2) obtain i where i: "i < length c" "c ! i = y"
    by (auto simp: in_set_conv_nth)
  then have "c \<noteq> []" by auto
  then have "hd c = c ! 0" by (simp add: hd_conv_nth)
  with is_heap_root_min[OF assms(1) i(1)] i(2) show ?thesis by simp
qed

lemma is_heap_prefix:
  assumes "is_heap (b @ [z])"
  shows "is_heap b"
  unfolding is_heap_def
proof (intro allI impI)
  fix i assume i: "i < length b" "0 < i"
  then have "(i - 1) div 2 < length b" by auto
  with assms i show "snd (b ! ((i - 1) div 2)) \<le> snd (b ! i)"
    unfolding is_heap_def by (metis length_append_singleton less_Suc_eq nth_append)
qed

lemma pq_push_heap:
  assumes "is_heap c"
  shows "is_heap (pq_push x c) \<and> mset (pq_push x c) = add_mset x (mset c)"
proof -
  let ?a = "c @ [x]"
  let ?h = "length c"
  have le: "snd (c ! ((i - 1) div 2)) \<le> snd (c ! i)" if "i < length c" "0 < i" for i
    using assms that by (simp add: is_heap_def)
  have nokid: "(i - 1) div 2 \<noteq> ?h" if "i < length ?a" "0 < i" for i
    using that by auto
  have hole: "hole_heap ?a ?h"
    unfolding hole_heap_def
  proof (intro conjI allI impI)
    fix i assume i: "i < length ?a" "0 < i \<and> i \<noteq> ?h \<and> (i - 1) div 2 \<noteq> ?h"
    then have il: "i < length c" by simp
    then have "(i - 1) div 2 < length c" by auto
    with il le[of i] i show "snd (?a ! ((i - 1) div 2)) \<le> snd (?a ! i)"
      by (simp add: nth_append)
  next
    fix i assume "i < length ?a" "0 < i \<and> (i - 1) div 2 = ?h \<and> 0 < ?h"
    with nokid[of i] show "snd (?a ! ((?h - 1) div 2)) \<le> snd (?a ! i)" by simp
  qed
  have kids: "\<forall>i<length ?a. 0 < i \<and> (i - 1) div 2 = ?h \<longrightarrow> snd x \<le> snd (?a ! i)"
    using nokid by blast
  have "pq_push x c = push_heap_aux ?a ?h 0 x"
    by (simp add: pq_push_def push_heap_def)
  with sift_up[OF _ hole kids] show ?thesis by simp
qed

lemma push_heap_aux_append:
  "h < length a \<Longrightarrow> push_heap_aux (a @ [y]) h t v = push_heap_aux a h t v @ [y]"
proof (induction a h t v rule: push_heap_aux.induct)
  case (1 a h t v)
  let ?p = "(h - 1) div 2"
  from "1.prems" have pl: "?p < length a" by auto
  show ?case
  proof (cases "t < h \<and> comparator (a ! ?p) v")
    case True
    from "1.IH"[OF refl True] pl
    have "push_heap_aux (a[h := a ! ?p] @ [y]) ?p t v = push_heap_aux (a[h := a ! ?p]) ?p t v @ [y]"
      by simp
    moreover have "push_heap_aux (a @ [y]) h t v = push_heap_aux (a[h := a ! ?p] @ [y]) ?p t v"
      using True pl "1.prems"
      by (subst push_heap_aux.simps) (simp add: Let_def nth_append list_update_append)
    moreover have "push_heap_aux a h t v = push_heap_aux (a[h := a ! ?p]) ?p t v"
      using True by (subst push_heap_aux.simps) (simp add: Let_def)
    ultimately show ?thesis by simp
  next
    case False
    have "push_heap_aux (a @ [y]) h t v = (a @ [y])[h := v]"
      using False pl by (subst push_heap_aux.simps) (auto simp: Let_def nth_append)
    moreover have "push_heap_aux a h t v = a[h := v]"
      using False by (subst push_heap_aux.simps) (auto simp: Let_def)
    ultimately show ?thesis
      using "1.prems" by (simp add: list_update_append)
  qed
qed

lemma adjust_down_step:
  assumes "sc < (len - 1) div 2"
  shows "adjust_down x h sc len =
           adjust_down
             (x[h := x ! (if comparator (x ! (2 * (sc + 1))) (x ! (2 * (sc + 1) - 1))
                          then 2 * (sc + 1) - 1 else 2 * (sc + 1))])
             (if comparator (x ! (2 * (sc + 1))) (x ! (2 * (sc + 1) - 1))
              then 2 * (sc + 1) - 1 else 2 * (sc + 1))
             (if comparator (x ! (2 * (sc + 1))) (x ! (2 * (sc + 1) - 1))
              then 2 * (sc + 1) - 1 else 2 * (sc + 1))
             len"
  using assms by (subst adjust_down.simps) (simp only: Let_def if_True)

lemma adjust_down_append:
  assumes "adjust_down a h sc len = (r, h', sc')"
    and "sc = h" and "len \<le> length a" and "h < len"
  shows "adjust_down (a @ [y]) h sc len = (r @ [y], h', sc')"
  using assms
proof (induction a h sc len rule: adjust_down.induct)
  case (1 a h sc len)
  show ?case
  proof (cases "sc < (len - 1) div 2")
    case False
    with "1.prems"(1) have "r = a" "h' = h" "sc' = sc" by (simp_all add: adjust_down.simps)
    with False show ?thesis by (simp add: adjust_down.simps)
  next
    case True
    define rc where "rc = 2 * (sc + 1)"
    define c where "c = (if comparator (a ! rc) (a ! (rc - 1)) then rc - 1 else rc)"
    from True have rcl: "rc < len" by (simp add: rc_def)
    then have cl: "c < len" by (auto simp: c_def)
    from rcl "1.prems"(3) have "rc < length a" "rc - 1 < length a" by simp_all
    then have nth: "(a @ [y]) ! rc = a ! rc" "(a @ [y]) ! (rc - 1) = a ! (rc - 1)"
      by (simp_all add: nth_append)
    from cl "1.prems"(3) have nthc: "(a @ [y]) ! c = a ! c" by (simp add: nth_append)
    have c': "(if comparator ((a @ [y]) ! rc) ((a @ [y]) ! (rc - 1)) then rc - 1 else rc) = c"
      by (simp only: nth c_def)
    have upd: "(a @ [y])[h := a ! c] = a[h := a ! c] @ [y]"
      using "1.prems"(3,4) by (simp add: list_update_append)
    have unf: "adjust_down a h sc len = adjust_down (a[h := a ! c]) c c len"
      using adjust_down_step[OF True, of a h] by (simp only: rc_def[symmetric] c_def[symmetric])
    have unf': "adjust_down (a @ [y]) h sc len = adjust_down (a[h := a ! c] @ [y]) c c len"
      using adjust_down_step[OF True, of "a @ [y]" h]
      by (simp only: rc_def[symmetric] c' nthc upd)
    from "1.prems"(1) unf have rec: "adjust_down (a[h := a ! c]) c c len = (r, h', sc')" by simp
    from "1.IH"[OF True refl refl, folded rc_def, folded c_def, OF rec refl _ cl] "1.prems"(3)
    have "adjust_down (a[h := a ! c] @ [y]) c c len = (r @ [y], h', sc')" by simp
    with unf' show ?thesis by simp
  qed
qed

lemma adjust_heap_correct:
  assumes "is_heap b" and "0 < length b"
  shows "is_heap (adjust_heap b 0 (length b) v)
         \<and> mset (adjust_heap b 0 (length b) v) = mset (b[0 := v])"
proof -
  let ?n = "length b"
  obtain r h' sc' where ad: "adjust_down b 0 0 ?n = (r, h', sc')"
    by (cases "adjust_down b 0 0 ?n") auto
  note props = adjust_down_props[OF ad refl refl assms(2) is_heap_hole[OF assms(1)]]
  from props have hr: "hole_heap r h'" and hl: "h' < ?n" and sc: "sc' = h'"
    and stop: "\<not> h' < (?n - 1) div 2"
    and lr: "length r = ?n"
    by simp_all
  from props have ms: "mset (r[h' := x]) = mset (b[0 := x])" for x
    by blast
  show ?thesis
  proof (cases "?n mod 2 = 0 \<and> 2 \<le> ?n \<and> sc' = (?n - 2) div 2")
    case True
    define c where "c = 2 * (sc' + 1) - 1"
    from True sc have c: "c = ?n - 1" "c = 2 * h' + 1" "h' < c" "c < ?n" "0 < c" "(c - 1) div 2 = h'"
      unfolding c_def by presburger+
    let ?r = "r[h' := r ! c]"
    have unf: "adjust_heap b 0 ?n v = push_heap_aux ?r c 0 v"
      using True ad by (simp add: adjust_heap_def c_def)
    have nokid: "(i - 1) div 2 \<noteq> c" if "i < ?n" for i
      using that c(1) True by presburger
    have hole: "hole_heap ?r c"
      unfolding hole_heap_def
    proof (intro conjI allI impI)
      fix i assume i: "i < length ?r" "0 < i \<and> i \<noteq> c \<and> (i - 1) div 2 \<noteq> c"
      show "snd (?r ! ((i - 1) div 2)) \<le> snd (?r ! i)"
      proof (cases "i = h'")
        case True
        then have ne: "(i - 1) div 2 \<noteq> h'" using i by auto
        from hole_heapD2[OF hr, of c] c lr True i
        have "snd (r ! ((h' - 1) div 2)) \<le> snd (r ! c)" by simp
        with True ne hl lr show ?thesis by simp
      next
        case ih: False
        have "(i - 1) div 2 \<noteq> h'"
        proof
          assume "(i - 1) div 2 = h'"
          with i have "i = 2 * h' + 1 \<or> i = 2 * h' + 2" by auto
          with i c lr show False by auto
        qed
        with hole_heapD1[OF hr, of i] i ih lr show ?thesis by simp
      qed
    next
      fix i assume "i < length ?r" "0 < i \<and> (i - 1) div 2 = c \<and> 0 < c"
      with nokid[of i] lr show "snd (?r ! ((c - 1) div 2)) \<le> snd (?r ! i)" by simp
    qed
    have kids: "\<forall>i<length ?r. 0 < i \<and> (i - 1) div 2 = c \<longrightarrow> snd v \<le> snd (?r ! i)"
      using nokid lr by auto
    have cl: "c < length ?r" using c lr by simp
    from sift_up[OF cl hole kids]
    have "is_heap (push_heap_aux ?r c 0 v)" "mset (push_heap_aux ?r c 0 v) = mset (?r[c := v])"
      by simp_all
    moreover have "mset (?r[c := v]) = mset (r[h' := v])"
      using mset_move_hole[of h' r c v] hl lr c by simp
    ultimately show ?thesis
      using unf ms[of v] by simp
  next
    case False
    have unf: "adjust_heap b 0 ?n v = push_heap_aux r h' 0 v"
      using False ad by (auto simp: adjust_heap_def)
    have nokid: "(i - 1) div 2 \<noteq> h'" if "i < ?n" "0 < i" for i
      using that stop False sc by presburger
    have kids: "\<forall>i<length r. 0 < i \<and> (i - 1) div 2 = h' \<longrightarrow> snd v \<le> snd (r ! i)"
      using nokid lr by auto
    have hl': "h' < length r" using hl lr by simp
    from sift_up[OF hl' hr kids] unf ms[of v] show ?thesis by simp
  qed
qed

lemma adjust_heap_append:
  assumes "is_heap b" and "0 < length b"
  shows "adjust_heap (b @ [y]) 0 (length b) v = adjust_heap b 0 (length b) v @ [y]"
proof -
  let ?n = "length b"
  obtain r h' sc' where ad: "adjust_down b 0 0 ?n = (r, h', sc')"
    by (cases "adjust_down b 0 0 ?n") auto
  from adjust_down_props[OF ad refl refl assms(2) is_heap_hole[OF assms(1)]]
  have hl: "h' < ?n" and sc: "sc' = h'" and lr: "length r = ?n"
    by simp_all
  from adjust_down_append[OF ad refl _ assms(2), of y]
  have ad': "adjust_down (b @ [y]) 0 0 ?n = (r @ [y], h', sc')" by simp
  show ?thesis
  proof (cases "?n mod 2 = 0 \<and> 2 \<le> ?n \<and> sc' = (?n - 2) div 2")
    case True
    define c where "c = 2 * (sc' + 1) - 1"
    from True sc have c: "c < ?n" unfolding c_def by presburger
    have "adjust_heap (b @ [y]) 0 ?n v = push_heap_aux ((r @ [y])[h' := (r @ [y]) ! c]) c 0 v"
      using True ad' by (simp add: adjust_heap_def c_def)
    also have "(r @ [y])[h' := (r @ [y]) ! c] = r[h' := r ! c] @ [y]"
      using c hl lr by (simp add: nth_append list_update_append)
    also have "push_heap_aux (r[h' := r ! c] @ [y]) c 0 v = push_heap_aux (r[h' := r ! c]) c 0 v @ [y]"
      using c lr by (intro push_heap_aux_append) simp
    also have "push_heap_aux (r[h' := r ! c]) c 0 v = adjust_heap b 0 ?n v"
      using True ad by (simp add: adjust_heap_def c_def)
    finally show ?thesis .
  next
    case False
    have "adjust_heap (b @ [y]) 0 ?n v = push_heap_aux (r @ [y]) h' 0 v"
      using False ad' by (auto simp: adjust_heap_def)
    also have "\<dots> = push_heap_aux r h' 0 v @ [y]"
      using hl lr by (intro push_heap_aux_append) simp
    also have "push_heap_aux r h' 0 v = adjust_heap b 0 ?n v"
      using False ad by (auto simp: adjust_heap_def)
    finally show ?thesis .
  qed
qed

lemma pq_pop_heap:
  assumes "is_heap c" and "c \<noteq> []"
  shows "is_heap (pq_pop c) \<and> add_mset (hd c) (mset (pq_pop c)) = mset c"
proof -
  from assms(2) obtain b z where cz: "c = b @ [z]"
    by (cases c rule: rev_cases) auto
  show ?thesis
  proof (cases "b = []")
    case True
    with cz show ?thesis by (simp add: pq_pop_def pop_heap_def is_heap_def)
  next
    case False
    then obtain x b' where b: "b = x # b'" by (cases b) auto
    from assms(1) cz have hb: "is_heap b" by (simp add: is_heap_prefix)
    from False have lb: "0 < length b" by simp
    have "pop_heap c = adjust_heap (b @ [b ! 0]) 0 (length b) z"
      using False cz lb by (simp add: pop_heap_def nth_append)
    also have "\<dots> = adjust_heap b 0 (length b) z @ [b ! 0]"
      by (rule adjust_heap_append[OF hb lb])
    finally have pop: "pq_pop c = adjust_heap b 0 (length b) z"
      by (simp add: pq_pop_def)
    from adjust_heap_correct[OF hb lb, of z]
    have "is_heap (pq_pop c)" and "mset (pq_pop c) = mset (b[0 := z])"
      by (simp_all add: pop)
    then show ?thesis
      by (simp add: cz b)
  qed
qed

lemma pq_ok_heap: "pq_ok is_heap pq_push pq_pop"
  unfolding pq_ok_def
proof (intro conjI allI impI)
  show "is_heap []" by (simp add: is_heap_def)
next
  fix x :: entry and c :: "entry list" assume "is_heap c"
  from pq_push_heap[OF this, of x]
  show "is_heap (pq_push x c)" "mset (pq_push x c) = add_mset x (mset c)" by simp_all
next
  fix c :: "entry list" assume c: "is_heap c \<and> c \<noteq> []"
  with pq_pop_heap[of c]
  show "is_heap (pq_pop c)" "add_mset (hd c) (mset (pq_pop c)) = mset c" by simp_all
  from c show "\<forall>y\<in>set c. snd (hd c) \<le> snd y"
    using is_heap_hd_min by blast
qed

subsection \<open>Consequences for findPath and findPathA\<close>

lemma findPathA_correct:
  assumes "in_bounds s"
  shows "\<exists>p. findPathA g s e = Some (Inr p) \<and> search_post g s e p"
  unfolding findPathA_def by (rule findPathA_with_correct[OF pq_ok_heap assms])

lemma findPathA_fifo_correct:
  assumes "in_bounds s"
  shows "\<exists>p. findPathA_fifo g s e = Some (Inr p) \<and> search_post g s e p"
  unfolding findPathA_fifo_def by (rule findPathA_with_correct[OF pq_ok_fifo assms])

lemma search_post_length:
  assumes "search_post g s e p" and "search_post g s e q"
  shows "length p = length q"
proof (cases "\<exists>r. is_route g s e r")
  case True
  with assms have "is_route g s e p" "is_route g s e q"
    "\<forall>r. is_route g s e r \<longrightarrow> length p \<le> length r"
    "\<forall>r. is_route g s e r \<longrightarrow> length q \<le> length r"
    unfolding search_post_def by blast+
  then have "length p \<le> length q" "length q \<le> length p" by blast+
  then show ?thesis by simp
next
  case False
  with assms have "p = []" "q = []" unfolding search_post_def by blast+
  then show ?thesis by simp
qed

lemma search_post_route:
  assumes "search_post g s e p" and "is_route g s e r"
  shows "is_route g s e p" and "s \<notin> set p" and "length p \<le> length r"
    and "\<forall>r'. is_route g s e r' \<longrightarrow> length p \<le> length r'"
  using assms unfolding search_post_def by blast+

lemma search_post_nonempty:
  assumes "search_post g s e p" and "p \<noteq> []"
  shows "is_route g s e p" and "s \<notin> set p"
  using assms unfolding search_post_def by blast+

lemma search_post_empty:
  assumes "search_post g s e p" and "s = e \<or> g e \<noteq> 0 \<or> (\<forall>r. \<not> is_route g s e r)"
  shows "p = []"
proof (cases "\<exists>r. is_route g s e r")
  case False
  with assms(1) show ?thesis unfolding search_post_def by blast
next
  case True
  then obtain r where r: "is_route g s e r" by blast
  have se: "s = e"
  proof (rule ccontr)
    assume "s \<noteq> e"
    with is_route_traversable[OF r] have "traversable g e" by auto
    with assms(2) r \<open>s \<noteq> e\<close> show False by (auto simp: traversable_def)
  qed
  then have "is_route g s e []" by (simp add: is_route_nil)
  from search_post_route(3)[OF assms(1) this] show ?thesis by simp
qed

lemma route_from_nth:
  "route_from g s p \<longleftrightarrow> (\<forall>i<length p. adjacent ((s # p) ! i) (p ! i) \<and> traversable g (p ! i))"
proof (induction p arbitrary: s)
  case Nil
  then show ?case by simp
next
  case (Cons c p)
  show ?case
  proof
    assume a: "route_from g s (c # p)"
    show "\<forall>i<length (c # p). adjacent ((s # c # p) ! i) ((c # p) ! i) \<and> traversable g ((c # p) ! i)"
    proof (intro allI impI)
      fix i assume "i < length (c # p)"
      with a Cons.IH[of c] show "adjacent ((s # c # p) ! i) ((c # p) ! i) \<and> traversable g ((c # p) ! i)"
        by (cases i) auto
    qed
  next
    assume a: "\<forall>i<length (c # p). adjacent ((s # c # p) ! i) ((c # p) ! i) \<and> traversable g ((c # p) ! i)"
    then have "adjacent s c \<and> traversable g c" by auto
    moreover have "\<forall>i<length p. adjacent ((c # p) ! i) (p ! i) \<and> traversable g (p ! i)"
    proof (intro allI impI)
      fix i assume "i < length p"
      with a have "adjacent ((s # c # p) ! Suc i) ((c # p) ! Suc i) \<and> traversable g ((c # p) ! Suc i)"
        by (metis length_Cons Suc_mono)
      then show "adjacent ((c # p) ! i) (p ! i) \<and> traversable g (p ! i)" by simp
    qed
    ultimately show "route_from g s (c # p)" using Cons.IH[of c] by simp
  qed
qed

lemma route_from_cells: "route_from g s p \<Longrightarrow> c \<in> set p \<Longrightarrow> in_bounds c \<and> g c = 0"
  by (induction p arbitrary: s) (auto simp: traversable_def)

lemma agree_off_upd: "agree_off s (g(s := x)) g"
  by (simp add: agree_off_def)

lemma agree_off_sym: "agree_off s g' g \<Longrightarrow> agree_off s g g'"
  by (simp add: agree_off_def)

lemma bfs_visit_indep:
  assumes "vis s" and "agree_off s g' g"
  shows "bfs_visit g' cur (vis, par, q) d = bfs_visit g cur (vis, par, q) d"
    and "fst (bfs_visit g cur (vis, par, q) d) s"
  using assms by (auto simp: bfs_visit_def Let_def isValidGridPosition_def agree_off_def)

lemma bfs_foldl_indep:
  assumes "fst st s" and "agree_off s g' g"
  shows "foldl (bfs_visit g' cur) st ds = foldl (bfs_visit g cur) st ds
         \<and> fst (foldl (bfs_visit g cur) st ds) s"
  using assms(1)
proof (induction ds arbitrary: st)
  case Nil
  then show ?case by simp
next
  case (Cons d ds)
  obtain vis par q where st: "st = (vis, par, q)" by (cases st) auto
  with Cons.prems have v: "vis s" by simp
  have "bfs_visit g' cur st d = bfs_visit g cur st d" "fst (bfs_visit g cur st d) s"
    unfolding st using v assms(2) by (rule bfs_visit_indep)+
  with Cons.IH[of "bfs_visit g cur st d"] show ?case by simp
qed

lemma bfs_loop_indep:
  "fst st s \<Longrightarrow> agree_off s g' g \<Longrightarrow> bfs_loop g' s e st = bfs_loop g s e st"
proof (induction g s e st rule: bfs_loop.induct)
  case (1 g s e vis par q)
  show ?case
  proof (cases q)
    case Nil
    then show ?thesis by (simp add: bfs_loop.simps)
  next
    case (Cons cur rest)
    show ?thesis
    proof (cases "cur = e")
      case True
      with Cons show ?thesis by (simp add: bfs_loop.simps)
    next
      case False
      from "1.prems" have v: "fst (vis, par, rest) s" by simp
      note f = bfs_foldl_indep[OF v "1.prems"(2), of cur dirs]
      from f have "fst (foldl (bfs_visit g cur) (vis, par, rest) dirs) s" by simp
      from "1.IH"[OF Cons False this "1.prems"(2)]
      have "bfs_loop g' s e (foldl (bfs_visit g cur) (vis, par, rest) dirs)
            = bfs_loop g s e (foldl (bfs_visit g cur) (vis, par, rest) dirs)" .
      moreover have "bfs_loop g' s e (vis, par, q)
                     = bfs_loop g' s e (foldl (bfs_visit g' cur) (vis, par, rest) dirs)"
        using Cons False by (subst bfs_loop.simps) simp
      moreover have "bfs_loop g s e (vis, par, q)
                     = bfs_loop g s e (foldl (bfs_visit g cur) (vis, par, rest) dirs)"
        using Cons False by (subst bfs_loop.simps) simp
      ultimately show ?thesis using f by simp
    qed
  qed
qed

lemma findPath_indep: "findPath (g(s := x)) s e = findPath g s e"
  by (simp add: findPath_def bfs_loop_indep[OF _ agree_off_upd])

lemma astar_visit_indep:
  assumes "V s" and "agree_off s g' g"
  shows "astar_visit push g' e cur (V, par, gc, ol) d
         = astar_visit push g e cur (V, par, gc, ol) d"
    and "fst (astar_visit push g e cur (V, par, gc, ol) d) s"
  using assms by (auto simp: astar_visit_def Let_def isValidGridPosition_def agree_off_def)

lemma astar_foldl_indep:
  assumes "fst st s" and "agree_off s g' g"
  shows "foldl (astar_visit push g' e cur) st ds = foldl (astar_visit push g e cur) st ds
         \<and> fst (foldl (astar_visit push g e cur) st ds) s"
  using assms(1)
proof (induction ds arbitrary: st)
  case Nil
  then show ?case by simp
next
  case (Cons d ds)
  obtain V par gc ol where st: "st = (V, par, gc, ol)" by (cases st) auto
  with Cons.prems have v: "V s" by simp
  have "astar_visit push g' e cur st d = astar_visit push g e cur st d"
    "fst (astar_visit push g e cur st d) s"
    unfolding st using v assms(2) by (rule astar_visit_indep)+
  with Cons.IH[of "astar_visit push g e cur st d"] show ?case by simp
qed

lemma astar_loop_indep_le:
  assumes "astar_loop push pop g' s e st = Some y"
  shows "\<forall>g. agree_off s g' g \<and> (fst st s \<or> fst (hd (snd (snd (snd st)))) = s)
           \<longrightarrow> astar_loop push pop g s e st = Some y"
proof (rule astar_loop.raw_induct
    [where P = "\<lambda>push pop g' s e st y.
         \<forall>g. agree_off s g' g \<and> (fst st s \<or> fst (hd (snd (snd (snd st)))) = s)
           \<longrightarrow> astar_loop push pop g s e st = Some y", OF _ assms], goal_cases)
  case (1 rec push pop g' s e st y)
  note IH = 1(1) and eq = 1(2)
  obtain V par gc ol where st: "st = (V, par, gc, ol)" by (cases st) auto
  show ?case
  proof (intro allI impI)
    fix g assume a: "agree_off s g' g \<and> (fst st s \<or> fst (hd (snd (snd (snd st)))) = s)"
    let ?cur = "fst (hd ol)"
    let ?st' = "\<lambda>g. foldl (astar_visit push g e ?cur) (V(?cur := True), par, gc, pop ol) dirs"
    show "astar_loop push pop g s e st = Some y"
    proof (cases "ol = [] \<or> ?cur = e \<or> \<not> in_bounds ?cur")
      case True
      with eq st show ?thesis
        by (subst astar_loop.simps) (auto split: if_splits)
    next
      case False
      from a st have v: "fst (V(?cur := True), par, gc, pop ol) s" by auto
      from a have ag: "agree_off s g' g" by simp
      note f = astar_foldl_indep[OF v ag, of push e ?cur dirs]
      from eq False st f have "rec push pop g' s e (?st' g) = Some y"
        by (auto split: if_splits)
      from IH[OF this] ag f
      have "astar_loop push pop g s e (?st' g) = Some y" by blast
      with False st show ?thesis
        by (subst astar_loop.simps) auto
    qed
  qed
qed

lemma astar_loop_indep:
  assumes "fst st s \<or> fst (hd (snd (snd (snd st)))) = s" and "agree_off s g' g"
  shows "astar_loop push pop g' s e st = astar_loop push pop g s e st"
proof (cases "astar_loop push pop g' s e st")
  case (Some y)
  from astar_loop_indep_le[OF this] assms show ?thesis
    using Some by auto
next
  case None
  show ?thesis
  proof (cases "astar_loop push pop g s e st")
    case None': None
    with None show ?thesis by simp
  next
    case (Some y)
    from astar_loop_indep_le[OF Some] assms(1) agree_off_sym[OF assms(2)]
    have "astar_loop push pop g' s e st = Some y" by blast
    with None show ?thesis by simp
  qed
qed

lemma findPathA_with_indep:
  assumes "pq_ok I push pop"
  shows "findPathA_with push pop (g(s := x)) s e = findPathA_with push pop g s e"
proof -
  have "mset (push (s, 0) []) = {#(s, 0)#}"
    using pq_okD(3)[OF assms pq_okD(1)[OF assms], of "(s, 0)"] by simp
  then have ol: "push (s, 0) [] = [(s, 0)]" by simp
  show ?thesis
    unfolding findPathA_with_def ol
    by (simp add: astar_loop_indep[OF _ agree_off_upd])
qed

subsection \<open>The searches\<close>

lemma demo_in_bounds: "in_bounds (Point 1 1)" "in_bounds (Point 0 0)" "in_bounds (Point 2 2)"
  by (simp_all add: in_bounds_def consts_defs)

lemma demo_route: "is_route empty_grid (Point 1 1) (Point 0 3) [Point 1 2, Point 0 2, Point 0 3]"
  by (simp add: is_route_def adjacent_def traversable_def in_bounds_def consts_defs empty_grid_def)

lemma demo_findPath:
  "findPath empty_grid (Point 1 1) (Point 0 3) = Some (Inr [Point 1 2, Point 1 3, Point 0 3])"
  unfolding empty_grid_def by code_simp

lemma demo_findPathA:
  "findPathA empty_grid (Point 1 1) (Point 0 3) = Some (Inr [Point 1 2, Point 0 2, Point 0 3])"
  unfolding empty_grid_def by code_simp

lemma demo_findPathA_fifo:
  "findPathA_fifo empty_grid (Point 1 1) (Point 0 3) = Some (Inr [Point 1 2, Point 1 3, Point 0 3])"
  unfolding empty_grid_def by code_simp

lemma corner_no_route: "\<not> is_route corner_grid (Point 2 2) (Point 0 0) r"
proof
  assume r: "is_route corner_grid (Point 2 2) (Point 0 0) r"
  then have "r \<noteq> []" by (auto simp: is_route_nil)
  with r obtain r' where r': "r = r' @ [Point 0 0]"
      "is_route corner_grid (Point 2 2) (last (Point 2 2 # r')) r'"
      "adjacent (last (Point 2 2 # r')) (Point 0 0)"
    by (auto elim: is_route_last)
  define m where "m = last (Point 2 2 # r')"
  from r'(3) have "m \<in> {Point 1 0, Point 0 1, Point (- 1) 0, Point 0 (- 1)}"
    unfolding m_def[symmetric] by (cases m) (auto simp: adjacent_def)
  then have nt: "\<not> traversable corner_grid m" and ne: "m \<noteq> Point 2 2"
    by (auto simp: traversable_def in_bounds_def corner_grid_def)
  from is_route_traversable[OF r'(2)] ne nt show False
    unfolding m_def[symmetric] by auto
qed

text \<open>
  C1, as stated, fails when the goal is the start cell: the cell is in bounds and Free,
  the empty route leads from it to itself, and both searches return the empty path.
\<close>

theorem search_to_own_cell_returns_empty_path:
  "in_bounds (Point 0 0) \<and> empty_grid (Point 0 0) = 0
   \<and> is_route empty_grid (Point 0 0) (Point 0 0) []
   \<and> findPath empty_grid (Point 0 0) (Point 0 0) = Some (Inr [])
   \<and> findPathA empty_grid (Point 0 0) (Point 0 0) = Some (Inr [])"
proof -
  have "findPath empty_grid (Point 0 0) (Point 0 0) = Some (Inr [])"
    unfolding empty_grid_def by code_simp
  moreover have "findPathA empty_grid (Point 0 0) (Point 0 0) = Some (Inr [])"
    unfolding empty_grid_def by code_simp
  ultimately show ?thesis
    by (simp add: demo_in_bounds is_route_nil empty_grid_def)
qed

text \<open>
  C1, amended: for every grid, in-bounds start and goal with a 4-connected route of Free
  cells from start to goal, findPath and findPathA each return a route from start to goal
  that no route is shorter than, so the two lengths are the shortest hop distance and
  agree; the returned path is empty exactly when the goal is the start cell.
\<close>

theorem searches_return_shortest_route:
  assumes "in_bounds s" and "is_route g s e r"
  shows "\<exists>p q. findPath g s e = Some (Inr p) \<and> findPathA g s e = Some (Inr q)
           \<and> is_route g s e p \<and> is_route g s e q
           \<and> (\<forall>r'. is_route g s e r' \<longrightarrow> length p \<le> length r' \<and> length q \<le> length r')
           \<and> length p = length q
           \<and> (p = [] \<longleftrightarrow> s = e) \<and> (q = [] \<longleftrightarrow> s = e)"
proof -
  from findPath_correct[OF assms(1), of g e] obtain p where
    p: "findPath g s e = Some (Inr p)" "search_post g s e p" by blast
  from findPathA_correct[OF assms(1), of g e] obtain q where
    q: "findPathA g s e = Some (Inr q)" "search_post g s e q" by blast
  note rp = search_post_route[OF p(2) assms(2)]
  note rq = search_post_route[OF q(2) assms(2)]
  have emp: "(x = [] \<longleftrightarrow> s = e)" if "is_route g s e x" "\<forall>r'. is_route g s e r' \<longrightarrow> length x \<le> length r'"
    for x
  proof
    assume "x = []"
    with that(1) show "s = e" by (simp add: is_route_nil)
  next
    assume "s = e"
    then have "is_route g s e []" by (simp add: is_route_nil)
    with that(2) show "x = []" by fastforce
  qed
  from emp[OF rp(1,4)] emp[OF rq(1,4)] p(1) q(1) rp rq search_post_length[OF p(2) q(2)]
  show ?thesis by blast
qed

theorem searches_return_shortest_route_witness:
  "\<exists>p q. findPath empty_grid (Point 1 1) (Point 0 3) = Some (Inr p)
         \<and> findPathA empty_grid (Point 1 1) (Point 0 3) = Some (Inr q)
         \<and> is_route empty_grid (Point 1 1) (Point 0 3) p
         \<and> is_route empty_grid (Point 1 1) (Point 0 3) q
         \<and> length p = 3 \<and> length q = 3 \<and> p \<noteq> [] \<and> q \<noteq> []"
  using searches_return_shortest_route[OF demo_in_bounds(1) demo_route]
  by (auto simp: demo_findPath demo_findPathA)

text \<open>
  C2: for every grid and in-bounds start, a non-empty path returned by findPath or by
  findPathA excludes the start cell, ends at the goal, steps by one 4-connected move from
  the start to its first cell and from each cell to the next, and holds only cells that
  are in bounds and Free in the grid the search was given.
\<close>

theorem returned_path_shape:
  assumes "in_bounds s"
  shows "\<exists>p q. findPath g s e = Some (Inr p) \<and> findPathA g s e = Some (Inr q)
           \<and> (p \<noteq> [] \<longrightarrow>
                s \<notin> set p \<and> last p = e
                \<and> (\<forall>i<length p. adjacent ((s # p) ! i) (p ! i))
                \<and> (\<forall>c\<in>set p. in_bounds c \<and> g c = 0))
           \<and> (q \<noteq> [] \<longrightarrow>
                s \<notin> set q \<and> last q = e
                \<and> (\<forall>i<length q. adjacent ((s # q) ! i) (q ! i))
                \<and> (\<forall>c\<in>set q. in_bounds c \<and> g c = 0))"
proof -
  from findPath_correct[OF assms, of g e] obtain p where
    p: "findPath g s e = Some (Inr p)" "search_post g s e p" by blast
  from findPathA_correct[OF assms, of g e] obtain q where
    q: "findPathA g s e = Some (Inr q)" "search_post g s e q" by blast
  have shape: "s \<notin> set x \<and> last x = e
                \<and> (\<forall>i<length x. adjacent ((s # x) ! i) (x ! i))
                \<and> (\<forall>c\<in>set x. in_bounds c \<and> g c = 0)"
    if "search_post g s e x" "x \<noteq> []" for x
  proof -
    from search_post_nonempty[OF that] have r: "is_route g s e x" and ns: "s \<notin> set x" .
    from r have rf: "route_from g s x" and "last (s # x) = e" by (simp_all add: is_route_def)
    with that(2) have "last x = e" by simp
    moreover from rf have "\<forall>i<length x. adjacent ((s # x) ! i) (x ! i)"
      by (simp add: route_from_nth)
    moreover from rf have "\<forall>c\<in>set x. in_bounds c \<and> g c = 0"
      using route_from_cells by blast
    ultimately show ?thesis using ns by blast
  qed
  from p(1) q(1) shape[OF p(2)] shape[OF q(2)] show ?thesis by blast
qed

theorem returned_path_shape_witness:
  "findPath empty_grid (Point 1 1) (Point 0 3) = Some (Inr [Point 1 2, Point 1 3, Point 0 3])
   \<and> findPathA empty_grid (Point 1 1) (Point 0 3) = Some (Inr [Point 1 2, Point 0 2, Point 0 3])
   \<and> Point 1 1 \<notin> set [Point 1 2, Point 1 3, Point 0 3]
   \<and> last [Point 1 2, Point 1 3, Point 0 3] = Point 0 3
   \<and> adjacent (Point 1 1) (Point 1 2) \<and> adjacent (Point 1 2) (Point 1 3)
   \<and> adjacent (Point 1 3) (Point 0 3)
   \<and> in_bounds (Point 1 3) \<and> empty_grid (Point 1 3) = 0
   \<and> adjacent (Point 1 2) (Point 0 2) \<and> adjacent (Point 0 2) (Point 0 3)"
proof -
  from returned_path_shape[where g = empty_grid and e = "Point 0 3", OF demo_in_bounds(1)]
  have "(\<forall>i<length [Point 1 2, Point 1 3, Point 0 3].
           adjacent ((Point 1 1 # [Point 1 2, Point 1 3, Point 0 3]) ! i) ([Point 1 2, Point 1 3, Point 0 3] ! i))
        \<and> (\<forall>c\<in>set [Point 1 2, Point 1 3, Point 0 3]. in_bounds c \<and> empty_grid c = 0)
        \<and> Point 1 1 \<notin> set [Point 1 2, Point 1 3, Point 0 3]
        \<and> last [Point 1 2, Point 1 3, Point 0 3] = Point 0 3
        \<and> (\<forall>i<length [Point 1 2, Point 0 2, Point 0 3].
           adjacent ((Point 1 1 # [Point 1 2, Point 0 2, Point 0 3]) ! i) ([Point 1 2, Point 0 2, Point 0 3] ! i))"
    by (auto simp: demo_findPath demo_findPathA)
  then have "adjacent (Point 1 1) (Point 1 2) \<and> adjacent (Point 1 2) (Point 1 3)
      \<and> adjacent (Point 1 3) (Point 0 3) \<and> in_bounds (Point 1 3) \<and> empty_grid (Point 1 3) = 0
      \<and> adjacent (Point 1 2) (Point 0 2) \<and> adjacent (Point 0 2) (Point 0 3)"
    by (simp add: All_less_Suc2 numeral_3_eq_3)
  then show ?thesis
    by (simp add: demo_findPath demo_findPathA)
qed

text \<open>
  C6, as stated, fails: \<^verbatim>\<open>std::priority_queue\<close> is a binary heap and keeps no insertion
  order among entries of equal f-cost. On the empty grid from \<open>(1, 1)\<close> to \<open>(0, 3)\<close>
  findPathA goes through \<open>(0, 2)\<close>, the first-in first-out reference through \<open>(1, 3)\<close>.
\<close>

theorem heap_order_is_not_insertion_order:
  "findPathA empty_grid (Point 1 1) (Point 0 3) = Some (Inr [Point 1 2, Point 0 2, Point 0 3])
   \<and> findPathA_fifo empty_grid (Point 1 1) (Point 0 3) = Some (Inr [Point 1 2, Point 1 3, Point 0 3])
   \<and> findPathA empty_grid (Point 1 1) (Point 0 3) \<noteq> findPathA_fifo empty_grid (Point 1 1) (Point 0 3)"
  by (simp add: demo_findPathA demo_findPathA_fifo)

text \<open>
  C6, amended: for every grid, in-bounds start and goal, findPathA and the reference A*
  whose open set pops equal f-costs in insertion order return paths of the same length;
  when a route exists both are routes from start to goal of the shortest length,
  when no route exists both are empty. The cells of the two paths may differ.
\<close>

theorem findPathA_same_length_as_fifo:
  assumes "in_bounds s"
  shows "\<exists>p q. findPathA g s e = Some (Inr p) \<and> findPathA_fifo g s e = Some (Inr q)
           \<and> length p = length q
           \<and> (\<forall>r. is_route g s e r \<longrightarrow>
                is_route g s e p \<and> is_route g s e q \<and> length p \<le> length r)
           \<and> ((\<forall>r. \<not> is_route g s e r) \<longrightarrow> p = [] \<and> q = [])"
proof -
  from findPathA_correct[OF assms, of g e] obtain p where
    p: "findPathA g s e = Some (Inr p)" "search_post g s e p" by blast
  from findPathA_fifo_correct[OF assms, of g e] obtain q where
    q: "findPathA_fifo g s e = Some (Inr q)" "search_post g s e q" by blast
  have len: "length p = length q"
    using p(2) q(2) by (rule search_post_length)
  have routes: "\<forall>r. is_route g s e r \<longrightarrow>
      is_route g s e p \<and> is_route g s e q \<and> length p \<le> length r"
    using search_post_route(1,3)[OF p(2)] search_post_route(1)[OF q(2)] by blast
  have none: "(\<forall>r. \<not> is_route g s e r) \<longrightarrow> p = [] \<and> q = []"
    using search_post_empty[OF p(2)] search_post_empty[OF q(2)] by simp
  have "findPathA g s e = Some (Inr p) \<and> findPathA_fifo g s e = Some (Inr q)
           \<and> length p = length q
           \<and> (\<forall>r. is_route g s e r \<longrightarrow>
                is_route g s e p \<and> is_route g s e q \<and> length p \<le> length r)
           \<and> ((\<forall>r. \<not> is_route g s e r) \<longrightarrow> p = [] \<and> q = [])"
    using p(1) q(1) len routes none by (intro conjI)
  then have "\<exists>q. findPathA g s e = Some (Inr p) \<and> findPathA_fifo g s e = Some (Inr q)
           \<and> length p = length q
           \<and> (\<forall>r. is_route g s e r \<longrightarrow>
                is_route g s e p \<and> is_route g s e q \<and> length p \<le> length r)
           \<and> ((\<forall>r. \<not> is_route g s e r) \<longrightarrow> p = [] \<and> q = [])" ..
  then show ?thesis ..
qed

theorem findPathA_same_length_as_fifo_witness:
  "findPathA empty_grid (Point 1 1) (Point 0 3) = Some (Inr [Point 1 2, Point 0 2, Point 0 3])
   \<and> findPathA_fifo empty_grid (Point 1 1) (Point 0 3) = Some (Inr [Point 1 2, Point 1 3, Point 0 3])
   \<and> length [Point 1 2, Point 0 2, Point 0 3] = length [Point 1 2, Point 1 3, Point 0 3]"
  using findPathA_same_length_as_fifo[where g = empty_grid and e = "Point 0 3", OF demo_in_bounds(1)]
  by (simp add: demo_findPathA demo_findPathA_fifo)

text \<open>
  C7: for every grid, in-bounds start and any goal, findPath and findPathA return a path
  (they terminate and make no out-of-bounds access); when the goal is the start, or the
  goal cell is an Obstacle, or no 4-connected route of Free cells leads from start to
  goal, the path they return is empty.
\<close>

theorem searches_fail_with_empty_path:
  assumes "in_bounds s"
  shows "(\<exists>p. findPath g s e = Some (Inr p)) \<and> (\<exists>q. findPathA g s e = Some (Inr q))
       \<and> (s = e \<or> g e \<noteq> 0 \<or> (\<forall>r. \<not> is_route g s e r) \<longrightarrow>
            findPath g s e = Some (Inr []) \<and> findPathA g s e = Some (Inr []))"
proof -
  from findPath_correct[OF assms, of g e] obtain p where
    p: "findPath g s e = Some (Inr p)" "search_post g s e p" by blast
  from findPathA_correct[OF assms, of g e] obtain q where
    q: "findPathA g s e = Some (Inr q)" "search_post g s e q" by blast
  have "p = [] \<and> q = []" if "s = e \<or> g e \<noteq> 0 \<or> (\<forall>r. \<not> is_route g s e r)"
    using search_post_empty[OF p(2) that] search_post_empty[OF q(2) that] by simp
  with p(1) q(1) show ?thesis by auto
qed

theorem searches_fail_with_empty_path_witness:
  "findPath empty_grid (Point 1 1) (Point 1 1) = Some (Inr [])
   \<and> findPathA empty_grid (Point 1 1) (Point 1 1) = Some (Inr [])
   \<and> findPath corner_grid (Point 1 1) (Point 1 0) = Some (Inr [])
   \<and> findPathA corner_grid (Point 1 1) (Point 1 0) = Some (Inr [])
   \<and> findPath corner_grid (Point 2 2) (Point 0 0) = Some (Inr [])
   \<and> findPathA corner_grid (Point 2 2) (Point 0 0) = Some (Inr [])"
proof -
  have obst: "corner_grid (Point 1 0) \<noteq> 0" by (simp add: corner_grid_def)
  from searches_fail_with_empty_path[where g = empty_grid and e = "Point 1 1", OF demo_in_bounds(1)]
    searches_fail_with_empty_path[where g = corner_grid and e = "Point 1 0", OF demo_in_bounds(1)] obst
    searches_fail_with_empty_path[where g = corner_grid and e = "Point 0 0", OF demo_in_bounds(3)]
    corner_no_route
  show ?thesis by simp
qed

text \<open>
  C10: overwriting the start cell of the grid with any value changes the result of neither
  search; with an Obstacle on the start cell \<open>(1, 1)\<close> of an otherwise empty grid both
  searches return a non-empty path to \<open>(0, 3)\<close> all of whose cells are Free.
\<close>

theorem start_occupancy_not_consulted:
  "findPath (g(s := x)) s e = findPath g s e
   \<and> findPathA (g(s := x)) s e = findPathA g s e
   \<and> findPath (empty_grid(Point 1 1 := 1)) (Point 1 1) (Point 0 3)
       = Some (Inr [Point 1 2, Point 1 3, Point 0 3])
   \<and> findPathA (empty_grid(Point 1 1 := 1)) (Point 1 1) (Point 0 3)
       = Some (Inr [Point 1 2, Point 0 2, Point 0 3])
   \<and> list_all (\<lambda>c. (empty_grid(Point 1 1 := 1)) c = 0) [Point 1 2, Point 1 3, Point 0 3]
   \<and> list_all (\<lambda>c. (empty_grid(Point 1 1 := 1)) c = 0) [Point 1 2, Point 0 2, Point 0 3]"
proof -
  have a: "findPathA (g(s := x)) s e = findPathA g s e" for g s x e
    unfolding findPathA_def by (rule findPathA_with_indep[OF pq_ok_heap])
  show ?thesis
    by (simp add: findPath_indep a demo_findPath demo_findPathA) (simp add: empty_grid_def)
qed

end
